theory Spec2Isabelle
  imports Main "HOL-Library.Word" "HOL-Library.Sublist"
begin

section \<open>Mark-and-sweep garbage collection of the block store (repo/gc.js)\<close>

text \<open>
  The development embeds \<^verbatim>\<open>packages/ipfs/src/core/components/repo/gc.js\<close>.
  The collaborators the file receives (\<^verbatim>\<open>gcLock\<close>, \<^verbatim>\<open>pin\<close>, \<^verbatim>\<open>pinManager\<close>,
  \<^verbatim>\<open>refs\<close>, \<^verbatim>\<open>repo\<close>) and the libraries it calls (\<^verbatim>\<open>cids\<close>, \<^verbatim>\<open>multibase\<close>) are
  parameters, collected in the record \<open>env\<close>; every call that can throw returns a sum
  with the error on the left. The block store is an abstract state \<open>'s\<close> that only
  \<^verbatim>\<open>repo.blocks.delete\<close> changes.
\<close>

subsection \<open>Data\<close>

type_synonym bytes = "8 word list"

text \<open>A JavaScript \<^verbatim>\<open>Error\<close>: its optional \<^verbatim>\<open>code\<close> and its \<^verbatim>\<open>message\<close>.\<close>

datatype error = Error (code: "string option") (message: string)

text \<open>A \<^verbatim>\<open>CID\<close> object of the \<^verbatim>\<open>cids\<close> package.\<close>

record CID =
  version :: nat
  codec :: string
  multihash :: bytes

text \<open>What \<^verbatim>\<open>new CID(...)\<close> is given: a buffer (the MFS root) or a string (a ref).\<close>

datatype cid_input = Buf bytes | Str string

text \<open>An item of \<^verbatim>\<open>pin.ls()\<close>.\<close>

datatype pin = Pin (pin_cid: CID) (pin_type: string)

text \<open>
  An async iterable that is consumed once: the items it yields, then either its normal
  end (\<open>None\<close>) or the error it throws (\<open>Some e\<close>).
\<close>

type_synonym 'a source = "'a list \<times> error option"

text \<open>A result object of the sweep: \<^verbatim>\<open>{ cid }\<close>, \<^verbatim>\<open>{ cid, err }\<close> or \<^verbatim>\<open>{ err }\<close>.\<close>

record entry =
  cid :: "CID option"
  err :: "error option"

type_synonym key = string

record 's env =
  writeLock :: "error option"
  pin_ls :: "pin source"
  getInternalBlocks :: "error + CID list"
  MFS_ROOT_KEY :: key
  root_get :: "key \<Rightarrow> error + bytes"
  refs :: "CID \<Rightarrow> string source"
  new_CID :: "cid_input \<Rightarrow> error + CID"
  multibase_encode_base32 :: "bytes \<Rightarrow> error + string"
  cid_toString :: "CID \<Rightarrow> string"
  blocks_query :: "'s \<Rightarrow> error + CID source"
  blocks_delete :: "CID \<Rightarrow> 's \<Rightarrow> error option \<times> 's"

text \<open>
  The observable state of one run: the block store, how often \<^verbatim>\<open>release()\<close> was
  called, the calls of \<^verbatim>\<open>repo.blocks.delete\<close> in order, and the two counters of
  \<^verbatim>\<open>deleteUnmarkedBlocks\<close>.
\<close>

record 's run_state =
  store :: 's
  releases :: nat
  delete_calls :: "CID list"
  blocksCount :: nat
  removedBlocksCount :: nat

text \<open>How the generator ends: it runs to its end, the consumer calls \<^verbatim>\<open>return()\<close>
  while it is suspended at a \<^verbatim>\<open>yield\<close>, or it throws.\<close>

datatype outcome = Completed | Returned | Thrown error

text \<open>
  The consumer of the generator: \<open>None\<close> drains it; \<open>Some n\<close> calls \<^verbatim>\<open>return()\<close>
  while the generator is suspended at its \<open>n + 1\<close>-th \<^verbatim>\<open>yield\<close>, so it has been given
  \<open>n + 1\<close> entries.
\<close>

type_synonym consumer = "nat option"

definition ERR_NOT_FOUND :: string where
  "ERR_NOT_FOUND = ''ERR_NOT_FOUND''"

definition BLOCK_RM_CONCURRENCY :: nat where
  "BLOCK_RM_CONCURRENCY = 256"

subsection \<open>A JavaScript \<^verbatim>\<open>Set\<close> of strings\<close>

text \<open>The elements in insertion order, without duplicates.\<close>

definition Set_add :: "'a \<Rightarrow> 'a list \<Rightarrow> 'a list" where
  "Set_add x xs = (if x \<in> set xs then xs else xs @ [x])"

definition Set_has :: "'a list \<Rightarrow> 'a \<Rightarrow> bool" where
  "Set_has xs x = (x \<in> set xs)"

definition Set_size :: "'a list \<Rightarrow> nat" where
  "Set_size xs = length xs"

subsection \<open>The three sources and their merge\<close>

definition pinsSource :: "'s env \<Rightarrow> CID source" where
  "pinsSource env = (case pin_ls env of (ps, e) \<Rightarrow> (map pin_cid ps, e))"

definition pinInternalsSource :: "'s env \<Rightarrow> CID source" where
  "pinInternalsSource env =
     (case getInternalBlocks env of
        Inl e \<Rightarrow> ([], Some e)
      | Inr cids \<Rightarrow> (cids, None))"

text \<open>The loop \<^verbatim>\<open>for await (const { ref } of refs(...)) yield new CID(ref)\<close>.\<close>

fun yield_refs :: "(cid_input \<Rightarrow> error + CID) \<Rightarrow> string list \<Rightarrow> error option \<Rightarrow> CID source" where
  "yield_refs mk [] e = ([], e)"
| "yield_refs mk (r # rs) e =
     (case mk (Str r) of
        Inl er \<Rightarrow> ([], Some er)
      | Inr c \<Rightarrow> (case yield_refs mk rs e of (cs, e') \<Rightarrow> (c # cs, e')))"

definition mfsSource :: "'s env \<Rightarrow> CID source" where
  "mfsSource env =
     (case root_get env (MFS_ROOT_KEY env) of
        Inl er \<Rightarrow> (if code er = Some ERR_NOT_FOUND then ([], None) else ([], Some er))
      | Inr mh \<Rightarrow>
          (case new_CID env (Buf mh) of
             Inl er \<Rightarrow> ([], Some er)
           | Inr rootCid \<Rightarrow>
               (case refs env rootCid of
                  (rs, e) \<Rightarrow> (case yield_refs (new_CID env) rs e of
                                (cs, e') \<Rightarrow> (rootCid # cs, e')))))"

text \<open>
  \<^verbatim>\<open>parallelMerge\<close> of \<^verbatim>\<open>streaming-iterables\<close> yields the items of its sources as they
  arrive and throws as soon as a source throws. The order of arrival is not fixed by the
  code, so it is a parameter: the schedule names, step by step, the source that delivers
  next. A step that names an exhausted source, or no source, is skipped; when the
  schedule is used up, the sources are read one after the other.
\<close>

fun drain :: "'a source list \<Rightarrow> 'a source" where
  "drain [] = ([], None)"
| "drain ((xs, None) # rest) = (case drain rest of (ys, e) \<Rightarrow> (xs @ ys, e))"
| "drain ((xs, Some e) # rest) = (xs, Some e)"

fun parallelMerge :: "nat list \<Rightarrow> 'a source list \<Rightarrow> 'a source" where
  "parallelMerge [] srcs = drain srcs"
| "parallelMerge (i # sched) srcs =
     (if i < length srcs then
        (case srcs ! i of
           (x # xs, e) \<Rightarrow>
             (case parallelMerge sched (srcs[i := (xs, e)]) of (ys, e') \<Rightarrow> (x # ys, e'))
         | ([], Some er) \<Rightarrow> ([], Some er)
         | ([], None) \<Rightarrow> parallelMerge sched srcs)
      else parallelMerge sched srcs)"

subsection \<open>\<^verbatim>\<open>createMarkedSet\<close>\<close>

text \<open>The body of the \<^verbatim>\<open>for await\<close> loop, over the items the merge delivers.\<close>

fun add_all :: "(bytes \<Rightarrow> error + string) \<Rightarrow> CID list \<Rightarrow> string list \<Rightarrow> error + string list" where
  "add_all enc [] output = Inr output"
| "add_all enc (c # cs) output =
     (case enc (multihash c) of
        Inl er \<Rightarrow> Inl er
      | Inr b32 \<Rightarrow> add_all enc cs (Set_add b32 output))"

definition createMarkedSet :: "'s env \<Rightarrow> nat list \<Rightarrow> error + string list" where
  "createMarkedSet env sched =
     (case parallelMerge sched [pinsSource env, pinInternalsSource env, mfsSource env] of
        (cids, e) \<Rightarrow>
          (case add_all (multibase_encode_base32 env) cids [] of
             Inl er \<Rightarrow> Inl er
           | Inr output \<Rightarrow> (case e of Some er \<Rightarrow> Inl er | None \<Rightarrow> Inr output)))"

subsection \<open>\<^verbatim>\<open>deleteUnmarkedBlocks\<close>\<close>

definition removeBlock ::
  "'s env \<Rightarrow> string list \<Rightarrow> CID \<Rightarrow> 's run_state \<Rightarrow> entry option \<times> 's run_state" where
  "removeBlock env markedSet c st =
     (let st1 = st\<lparr>blocksCount := blocksCount st + 1\<rparr> in
      case multibase_encode_base32 env (multihash c) of
        Inl er \<Rightarrow>
          (Some \<lparr>cid = None,
                 err = Some (Error None (''Could delete block with CID '' @ cid_toString env c
                                          @ '': '' @ message er))\<rparr>, st1)
      | Inr b32 \<Rightarrow>
          if Set_has markedSet b32 then (None, st1)
          else
            (case blocks_delete env c (store st1) of
               (None, s') \<Rightarrow>
                 (Some \<lparr>cid = Some c, err = None\<rparr>,
                  st1\<lparr>store := s', delete_calls := delete_calls st1 @ [c],
                      removedBlocksCount := removedBlocksCount st1 + 1\<rparr>)
             | (Some er, s') \<Rightarrow>
                 (Some \<lparr>cid = Some c,
                        err = Some (Error None (''Could not delete block with CID ''
                                                 @ cid_toString env c @ '': '' @ message er))\<rparr>,
                  st1\<lparr>store := s', delete_calls := delete_calls st1 @ [c]\<rparr>)))"

text \<open>
  \<^verbatim>\<open>for await (const res of transform(BLOCK_RM_CONCURRENCY, removeBlock, blockKeys))
  if (res) yield res\<close>, with the keys taken one after the other: \<^verbatim>\<open>transform\<close> starts up
  to \<^verbatim>\<open>BLOCK_RM_CONCURRENCY\<close> calls before the first has finished and delivers results
  as they complete; the model runs them in the order of the keys.
\<close>

fun sweep ::
  "'s env \<Rightarrow> string list \<Rightarrow> CID list \<Rightarrow> error option \<Rightarrow> consumer \<Rightarrow> 's run_state
     \<Rightarrow> outcome \<times> entry list \<times> 's run_state" where
  "sweep env markedSet [] e k st =
     ((case e of None \<Rightarrow> Completed | Some er \<Rightarrow> Thrown er), [], st)"
| "sweep env markedSet (c # cs) e k st =
     (case removeBlock env markedSet c st of
        (None, st') \<Rightarrow> sweep env markedSet cs e k st'
      | (Some res, st') \<Rightarrow>
          (case k of
             Some 0 \<Rightarrow> (Returned, [res], st')
           | Some (Suc n) \<Rightarrow>
               (case sweep env markedSet cs e (Some n) st' of
                  (out, rs, st'') \<Rightarrow> (out, res # rs, st''))
           | None \<Rightarrow>
               (case sweep env markedSet cs e None st' of
                  (out, rs, st'') \<Rightarrow> (out, res # rs, st''))))"

definition deleteUnmarkedBlocks ::
  "'s env \<Rightarrow> string list \<Rightarrow> CID source \<Rightarrow> consumer \<Rightarrow> 's run_state
     \<Rightarrow> outcome \<times> entry list \<times> 's run_state" where
  "deleteUnmarkedBlocks env markedSet blockKeys k st =
     (case blockKeys of (ks, e) \<Rightarrow>
        sweep env markedSet ks e k
          (st\<lparr>blocksCount := 0, removedBlocksCount := 0\<rparr>))"

subsection \<open>\<^verbatim>\<open>gc\<close>\<close>

definition release :: "'s run_state \<Rightarrow> 's run_state" where
  "release st = st\<lparr>releases := releases st + 1\<rparr>"

text \<open>\<^verbatim>\<open>try { ... } finally { release() }\<close>: the body, then \<^verbatim>\<open>release()\<close> however it ended.\<close>

definition try_finally ::
  "('s run_state \<Rightarrow> outcome \<times> entry list \<times> 's run_state) \<Rightarrow> ('s run_state \<Rightarrow> 's run_state)
     \<Rightarrow> 's run_state \<Rightarrow> outcome \<times> entry list \<times> 's run_state" where
  "try_finally body fin st = (case body st of (out, rs, st') \<Rightarrow> (out, rs, fin st'))"

definition init_state :: "'s \<Rightarrow> 's run_state" where
  "init_state s =
     \<lparr>store = s, releases = 0, delete_calls = [], blocksCount = 0, removedBlocksCount = 0\<rparr>"

definition gc_body ::
  "'s env \<Rightarrow> nat list \<Rightarrow> consumer \<Rightarrow> 's run_state \<Rightarrow> outcome \<times> entry list \<times> 's run_state" where
  "gc_body env sched k st =
     (case createMarkedSet env sched of
        Inl er \<Rightarrow> (Thrown er, [], st)
      | Inr markedSet \<Rightarrow>
          (case blocks_query env (store st) of
             Inl er \<Rightarrow> (Thrown er, [], st)
           | Inr blockKeys \<Rightarrow> deleteUnmarkedBlocks env markedSet blockKeys k st))"

definition gc ::
  "'s env \<Rightarrow> nat list \<Rightarrow> consumer \<Rightarrow> 's \<Rightarrow> outcome \<times> entry list \<times> 's run_state" where
  "gc env sched k s =
     (case writeLock env of
        Some er \<Rightarrow> (Thrown er, [], init_state s)
      | None \<Rightarrow> try_finally (gc_body env sched k) release (init_state s))"


subsection \<open>A small repository, for the concrete runs\<close>

text \<open>
  The store is the list of the block keys it holds. Deleting a key of \<open>failing\<close> is
  rejected and leaves the store as it is; deleting any other key removes it.
\<close>

definition mk_cid :: "nat \<Rightarrow> bytes \<Rightarrow> CID" where
  "mk_cid v mh = \<lparr>version = v, codec = ''dag-pb'', multihash = mh\<rparr>"

definition demo_encode :: "bytes \<Rightarrow> error + string" where
  "demo_encode mh =
     (if mh = [] then Inl (Error None ''empty buffer'')
      else Inr (CHR ''b'' # map (\<lambda>w. char_of (unat w)) mh))"

definition demo_toString :: "CID \<Rightarrow> string" where
  "demo_toString c =
     (if version c = 0 then CHR ''Q'' else CHR ''b'') # map (\<lambda>w. char_of (unat w)) (multihash c)"

definition demo_new_CID :: "cid_input \<Rightarrow> error + CID" where
  "demo_new_CID i =
     (case i of
        Buf mh \<Rightarrow> Inr (mk_cid 0 mh)
      | Str s \<Rightarrow> (if s = [] then Inl (Error None ''invalid CID'')
                  else Inr (mk_cid 1 (map (\<lambda>ch. of_char ch) s))))"

definition demo_delete :: "CID list \<Rightarrow> CID \<Rightarrow> CID list \<Rightarrow> error option \<times> CID list" where
  "demo_delete failing c s =
     (if c \<in> set failing then (Some (Error None ''EIO''), s) else (None, removeAll c s))"

text \<open>
  Block \<open>A\<close> is pinned, \<open>B\<close> and again \<open>A\<close> are internal to the pin manager, \<open>C\<close> is the MFS
  root and refers to \<open>D\<close>; the store also holds \<open>X\<close>, \<open>Y\<close> and \<open>Z\<close>, and deleting \<open>X\<close> fails.
\<close>

definition demo_env :: "CID list env" where
  "demo_env =
     \<lparr>writeLock = None,
      pin_ls = ([Pin (mk_cid 1 [65]) ''recursive''], None),
      getInternalBlocks = Inr [mk_cid 0 [66], mk_cid 1 [65]],
      MFS_ROOT_KEY = ''/local/filesroot'',
      root_get = (\<lambda>k. if k = ''/local/filesroot'' then Inr [67]
                        else Inl (Error (Some ERR_NOT_FOUND) ''Not Found'')),
      refs = (\<lambda>c. ([''D''], None)),
      new_CID = demo_new_CID,
      multibase_encode_base32 = demo_encode,
      cid_toString = demo_toString,
      blocks_query = (\<lambda>s. Inr (s, None)),
      blocks_delete = demo_delete [mk_cid 1 [88]]\<rparr>"

definition demo_store :: "CID list" where
  "demo_store = [mk_cid 1 [65], mk_cid 0 [66], mk_cid 0 [67], mk_cid 1 [68],
                 mk_cid 1 [88], mk_cid 1 [89], mk_cid 1 [90]]"

text \<open>The same repository without an MFS root, and with a root store that cannot be read.\<close>

definition demo_env_no_root :: "CID list env" where
  "demo_env_no_root =
     demo_env\<lparr>root_get := \<lambda>k. Inl (Error (Some ERR_NOT_FOUND) ''Not Found'')\<rparr>"

definition demo_env_root_error :: "CID list env" where
  "demo_env_root_error =
     demo_env\<lparr>root_get := \<lambda>k. Inl (Error (Some ''ERR_IO'') ''read failed'')\<rparr>"

text \<open>The same repository with a store in which every deletion succeeds.\<close>

definition demo_env_ok :: "CID list env" where
  "demo_env_ok = demo_env\<lparr>blocks_delete := demo_delete []\<rparr>"

text \<open>The test of lines 85 and 86: the key encodes, and the marked set has the encoding.\<close>

definition is_marked :: "'s env \<Rightarrow> string list \<Rightarrow> CID \<Rightarrow> bool" where
  "is_marked env markedSet c =
     (case multibase_encode_base32 env (multihash c) of
        Inl er \<Rightarrow> False
      | Inr b32 \<Rightarrow> Set_has markedSet b32)"

text \<open>The key encodes and the marked set lacks the encoding: line 87 is reached.\<close>

definition is_unmarked :: "'s env \<Rightarrow> string list \<Rightarrow> CID \<Rightarrow> bool" where
  "is_unmarked env markedSet c =
     (case multibase_encode_base32 env (multihash c) of
        Inl er \<Rightarrow> False
      | Inr b32 \<Rightarrow> \<not> Set_has markedSet b32)"

text \<open>Every identifier that one of the three sources yields.\<close>

definition source_cids :: "'s env \<Rightarrow> CID set" where
  "source_cids env =
     set (fst (pinsSource env)) \<union> set (fst (pinInternalsSource env)) \<union> set (fst (mfsSource env))"

section \<open>Properties\<close>

subsection \<open>One call of \<^verbatim>\<open>removeBlock\<close>\<close>

lemma removeBlock_marked:
  "is_marked env m c \<Longrightarrow> removeBlock env m c st = (None, st\<lparr>blocksCount := blocksCount st + 1\<rparr>)"
  by (simp add: removeBlock_def is_marked_def split: sum.splits)

lemma removeBlock_releases: "releases (snd (removeBlock env m c st)) = releases st"
  by (simp add: removeBlock_def Let_def split: sum.splits prod.splits option.splits)

lemma removeBlock_blocksCount: "blocksCount (snd (removeBlock env m c st)) = blocksCount st + 1"
  by (simp add: removeBlock_def Let_def split: sum.splits prod.splits option.splits)

lemma removeBlock_delete_calls:
  "delete_calls (snd (removeBlock env m c st)) =
     delete_calls st @
       (if is_marked env m c \<or> isl (multibase_encode_base32 env (multihash c)) then [] else [c])"
  by (simp add: removeBlock_def is_marked_def Let_def split: sum.splits prod.splits option.splits)

lemma removeBlock_store:
  "store (snd (removeBlock env m c st)) =
     (if is_marked env m c \<or> isl (multibase_encode_base32 env (multihash c)) then store st
      else snd (blocks_delete env c (store st)))"
  by (simp add: removeBlock_def is_marked_def Let_def split: sum.splits prod.splits option.splits)

lemma removeBlock_entry_cid:
  "fst (removeBlock env m c st) = Some r \<Longrightarrow> cid r = Some c' \<Longrightarrow> c' = c \<and> \<not> is_marked env m c"
  by (auto simp add: removeBlock_def is_marked_def Let_def
           split: sum.splits prod.splits option.splits if_splits)

subsection \<open>The loop over the keys\<close>

lemma sweep_invariant:
  assumes step: "\<And>c st0. c \<in> set ks \<Longrightarrow> I st0 \<Longrightarrow> I (snd (removeBlock env m c st0))"
    and init: "I st"
  shows "I (snd (snd (sweep env m ks e k st)))"
  using assms
proof (induction ks arbitrary: k st)
  case Nil
  then show ?case by simp
next
  case (Cons c cs)
  obtain r st' where rb: "removeBlock env m c st = (r, st')"
    by (cases "removeBlock env m c st")
  have I': "I st'"
    using Cons.prems(1)[of c st] Cons.prems(2) rb by simp
  have rest: "I (snd (snd (sweep env m cs e k' st')))" for k'
    using Cons.IH[of st' k'] Cons.prems(1) I' by simp
  show ?case
  proof (cases r)
    case None
    then show ?thesis using rb rest by simp
  next
    case (Some res)
    show ?thesis
    proof (cases k)
      case None
      then show ?thesis using rb Some rest[of None] by (auto split: prod.splits)
    next
      case (Some n)
      then show ?thesis
        using rb \<open>r = Some res\<close> rest[of "Some (n - 1)"] I'
        by (cases n) (auto split: prod.splits)
    qed
  qed
qed

lemma sweep_entries:
  assumes "r \<in> set (fst (snd (sweep env m ks e k st)))"
  shows "\<exists>c \<in> set ks. \<exists>st0. fst (removeBlock env m c st0) = Some r"
  using assms
proof (induction ks arbitrary: k st)
  case Nil
  then show ?case by simp
next
  case (Cons c cs)
  obtain x st' where rb: "removeBlock env m c st = (x, st')"
    by (cases "removeBlock env m c st")
  have rest: "r \<in> set (fst (snd (sweep env m cs e k' st')))
      \<Longrightarrow> \<exists>c \<in> set (c # cs). \<exists>st0. fst (removeBlock env m c st0) = Some r" for k'
    using Cons.IH[of k' st'] by auto
  have here: "x = Some r \<Longrightarrow> \<exists>c \<in> set (c # cs). \<exists>st0. fst (removeBlock env m c st0) = Some r"
    using rb by (metis fst_conv list.set_intros(1))
  show ?case
  proof (cases x)
    case None
    then show ?thesis using rb Cons.prems rest by simp
  next
    case (Some res)
    show ?thesis
    proof (cases k)
      case None
      then show ?thesis
        using rb Some Cons.prems rest[of None] here by (auto split: prod.splits)
    next
      case (Some n)
      then show ?thesis
        using rb \<open>x = Some res\<close> Cons.prems rest[of "Some (n - 1)"] here
        by (cases n) (auto split: prod.splits)
    qed
  qed
qed

lemma sweep_releases: "releases (snd (snd (sweep env m ks e k st))) = releases st"
  by (rule sweep_invariant[where I = "\<lambda>x. releases x = releases st"])
     (simp_all add: removeBlock_releases)

lemma sweep_delete_calls:
  "set (delete_calls (snd (snd (sweep env m ks e k st))))
     \<subseteq> set (delete_calls st) \<union> {c \<in> set ks. \<not> is_marked env m c}"
  by (rule sweep_invariant[where I = "\<lambda>x. set (delete_calls x)
         \<subseteq> set (delete_calls st) \<union> {c \<in> set ks. \<not> is_marked env m c}"])
     (auto simp add: removeBlock_delete_calls)

lemma sweep_store_invariant:
  assumes "\<And>c s. c \<in> set ks \<Longrightarrow> \<not> is_marked env m c \<Longrightarrow> P s \<Longrightarrow> P (snd (blocks_delete env c s))"
    and "P (store st)"
  shows "P (store (snd (snd (sweep env m ks e k st))))"
  by (rule sweep_invariant[where I = "\<lambda>x. P (store x)"])
     (use assms in \<open>auto simp add: removeBlock_store\<close>)

lemma sweep_entry_cid:
  assumes "r \<in> set (fst (snd (sweep env m ks e k st)))" and "cid r = Some c"
  shows "c \<in> set ks \<and> \<not> is_marked env m c"
  using sweep_entries[OF assms(1)] removeBlock_entry_cid assms(2) by blast

subsection \<open>The ways a run can go\<close>

lemma init_state_counters:
  "(init_state s)\<lparr>blocksCount := 0, removedBlocksCount := 0\<rparr> = init_state s"
  by (simp add: init_state_def)

lemma gc_cases:
  assumes "gc env sched k s = (out, rs, st)"
  obtains (lock) er where "writeLock env = Some er" "out = Thrown er" "rs = []" "st = init_state s"
  | (mark) er where "writeLock env = None" "createMarkedSet env sched = Inl er"
      "out = Thrown er" "rs = []" "st = release (init_state s)"
  | (query) m er where "writeLock env = None" "createMarkedSet env sched = Inr m"
      "blocks_query env s = Inl er" "out = Thrown er" "rs = []" "st = release (init_state s)"
  | (sweep) m ks e st' where "writeLock env = None" "createMarkedSet env sched = Inr m"
      "blocks_query env s = Inr (ks, e)" "sweep env m ks e k (init_state s) = (out, rs, st')"
      "st = release st'"
proof (cases "writeLock env")
  case (Some er)
  then show ?thesis using assms lock by (simp add: gc_def)
next
  case None
  show ?thesis
  proof (cases "createMarkedSet env sched")
    case (Inl er)
    then show ?thesis
      using assms None mark by (simp add: gc_def try_finally_def gc_body_def)
  next
    case (Inr m)
    show ?thesis
    proof (cases "blocks_query env s")
      case (Inl er)
      then show ?thesis
        using assms None Inr query
        by (simp add: gc_def try_finally_def gc_body_def init_state_def)
    next
      case (Inr bk)
      obtain ks e where bk: "bk = (ks, e)" by (cases bk)
      obtain out' rs' st' where sw: "sweep env m ks e k (init_state s) = (out', rs', st')"
        by (cases "sweep env m ks e k (init_state s)")
      have "store (init_state s) = s" by (simp add: init_state_def)
      then show ?thesis
        using assms None \<open>createMarkedSet env sched = Inr m\<close> Inr bk sw sweep[of m ks e st']
        by (simp add: gc_def try_finally_def gc_body_def deleteUnmarkedBlocks_def
              init_state_counters)
    qed
  qed
qed



subsection \<open>Retention of marked blocks\<close>

lemma same_multihash_marked:
  "multihash c' = multihash c \<Longrightarrow> is_marked env m c' = is_marked env m c"
  by (simp add: is_marked_def)

text \<open>
  Claim C1. A block whose encoded identifier (the base-32 multibase of its multihash) is
  in the marked set is retained: \<^verbatim>\<open>removeBlock\<close> returns \<^verbatim>\<open>null\<close> for it and only counts
  it, the run never calls \<^verbatim>\<open>repo.blocks.delete\<close> on it, no result entry carries it, and
  it is still in the store after the run. The last part is about a store in which
  deleting a block leaves the blocks of another multihash in place; \<open>has\<close> is its
  membership test.
\<close>

theorem marked_block_is_retained:
  assumes marked: "createMarkedSet env sched = Inr markedSet"
    and enc: "multibase_encode_base32 env (multihash c) = Inr b32"
    and mem: "Set_has markedSet b32"
    and frame: "\<And>c' s'. multihash c' \<noteq> multihash c \<Longrightarrow> has s' c
                  \<Longrightarrow> has (snd (blocks_delete env c' s')) c"
    and present: "has s c"
  shows "removeBlock env markedSet c st0 = (None, st0\<lparr>blocksCount := blocksCount st0 + 1\<rparr>)
       \<and> c \<notin> set (delete_calls (snd (snd (gc env sched k s))))
       \<and> (\<forall>r \<in> set (fst (snd (gc env sched k s))). cid r \<noteq> Some c)
       \<and> has (store (snd (snd (gc env sched k s)))) c"
proof -
  have mk: "is_marked env markedSet c"
    using enc mem by (simp add: is_marked_def)
  have one: "removeBlock env markedSet c st0 = (None, st0\<lparr>blocksCount := blocksCount st0 + 1\<rparr>)"
    using mk by (rule removeBlock_marked)
  obtain out rs st where run: "gc env sched k s = (out, rs, st)"
    by (cases "gc env sched k s")
  have "c \<notin> set (delete_calls st) \<and> (\<forall>r \<in> set rs. cid r \<noteq> Some c) \<and> has (store st) c"
    using run
  proof (cases rule: gc_cases)
    case (lock er)
    then show ?thesis using present by (simp add: init_state_def)
  next
    case (mark er)
    then show ?thesis using present by (simp add: init_state_def release_def)
  next
    case (query m er)
    then show ?thesis using present by (simp add: init_state_def release_def)
  next
    case (sweep m ks e st')
    have m: "m = markedSet" using sweep(2) marked by simp
    have st'_eq: "st' = snd (snd (sweep env m ks e k (init_state s)))"
      and rs_eq: "rs = fst (snd (sweep env m ks e k (init_state s)))"
      using sweep(4) by simp_all
    have "set (delete_calls st') \<subseteq> {c \<in> set ks. \<not> is_marked env m c}"
      using sweep_delete_calls[of env m ks e k "init_state s"] st'_eq
      by (simp add: init_state_def)
    then have a: "c \<notin> set (delete_calls st)"
      using mk m sweep(5) by (auto simp add: release_def)
    have b: "\<forall>r \<in> set rs. cid r \<noteq> Some c"
      using sweep_entry_cid[of _ env m ks e k "init_state s" c] rs_eq mk m by blast
    have "has (store st') c"
      unfolding st'_eq
    proof (rule sweep_store_invariant[where P = "\<lambda>x. has x c"])
      fix c' s'
      assume "\<not> is_marked env m c'" and h: "has s' c"
      then have "multihash c' \<noteq> multihash c"
        using mk m same_multihash_marked by blast
      then show "has (snd (blocks_delete env c' s')) c"
        using frame h by blast
    next
      show "has (store (init_state s)) c"
        using present by (simp add: init_state_def)
    qed
    then have "has (store st) c"
      using sweep(5) by (simp add: release_def)
    then show ?thesis using a b by simp
  qed
  then show ?thesis using one run by simp
qed

theorem marked_block_is_retained_witness:
  "createMarkedSet demo_env [2, 0, 1] = Inr [''bC'', ''bA'', ''bB'', ''bD'']
   \<and> multibase_encode_base32 demo_env (multihash (mk_cid 1 [65])) = Inr ''bA''
   \<and> Set_has [''bC'', ''bA'', ''bB'', ''bD''] ''bA''
   \<and> mk_cid 1 [65] \<in> set demo_store
   \<and> removeBlock demo_env [''bC'', ''bA'', ''bB'', ''bD''] (mk_cid 1 [65]) (init_state demo_store)
       = (None, (init_state demo_store)\<lparr>blocksCount := 1\<rparr>)
   \<and> mk_cid 1 [65] \<notin> set (delete_calls (snd (snd (gc demo_env [2, 0, 1] None demo_store))))
   \<and> Some (mk_cid 1 [65]) \<notin> set (map cid (fst (snd (gc demo_env [2, 0, 1] None demo_store))))
   \<and> mk_cid 1 [65] \<in> set (store (snd (snd (gc demo_env [2, 0, 1] None demo_store))))"
proof -
  have h1: "createMarkedSet demo_env [2, 0, 1] = Inr [''bC'', ''bA'', ''bB'', ''bD'']"
    by code_simp
  have h2: "multibase_encode_base32 demo_env (multihash (mk_cid 1 [65])) = Inr ''bA''"
    by code_simp
  have h3: "Set_has [''bC'', ''bA'', ''bB'', ''bD''] ''bA''"
    by code_simp
  have h4: "\<And>c' s'. multihash c' \<noteq> multihash (mk_cid 1 [65]) \<Longrightarrow> mk_cid 1 [65] \<in> set s'
              \<Longrightarrow> mk_cid 1 [65] \<in> set (snd (blocks_delete demo_env c' s'))"
    by (auto simp add: demo_env_def demo_delete_def)
  have h5: "mk_cid 1 [65] \<in> set demo_store"
    by code_simp
  have h6: "blocksCount (init_state demo_store) = 0"
    by (simp add: init_state_def)
  show ?thesis
    using marked_block_is_retained[where has = "\<lambda>s c. c \<in> set s" and k = None
            and ?st0.0 = "init_state demo_store", OF h1 h2 h3 h4 h5] h1 h2 h3 h5 h6
    by auto
qed



subsection \<open>A drained sweep\<close>

lemma is_unmarked_iff:
  "is_unmarked env m c \<longleftrightarrow> \<not> is_marked env m c \<and> \<not> isl (multibase_encode_base32 env (multihash c))"
  by (simp add: is_unmarked_def is_marked_def split: sum.splits)

lemma removeBlock_unmarked_entry:
  "is_unmarked env m c \<Longrightarrow>
     fst (removeBlock env m c st) =
       Some \<lparr>cid = Some c,
             err = map_option (\<lambda>er. Error None (''Could not delete block with CID ''
                                                  @ cid_toString env c @ '': '' @ message er))
                     (fst (blocks_delete env c (store st)))\<rparr>"
  by (auto simp add: removeBlock_def is_unmarked_def Let_def
           split: sum.splits prod.splits option.splits)

lemma sweep_drain_Cons:
  "sweep env m (c # cs) e None st =
     (case removeBlock env m c st of
        (r, st') \<Rightarrow>
          (case sweep env m cs e None st' of
             (out, rs, st'') \<Rightarrow> (out, (case r of None \<Rightarrow> rs | Some res \<Rightarrow> res # rs), st'')))"
  by (simp split: prod.splits option.splits)

lemma sweep_drain_outcome:
  "fst (sweep env m ks e None st) = (case e of None \<Rightarrow> Completed | Some er \<Rightarrow> Thrown er)"
  by (induction ks arbitrary: st)
     (simp_all del: sweep.simps(2) add: sweep_drain_Cons split_beta)

lemma sweep_drain_blocksCount:
  "blocksCount (snd (snd (sweep env m ks e None st))) = blocksCount st + length ks"
proof (induction ks arbitrary: st)
  case Nil
  show ?case by simp
next
  case (Cons c cs)
  obtain r st' where rb: "removeBlock env m c st = (r, st')"
    by (cases "removeBlock env m c st")
  have "blocksCount st' = blocksCount st + 1"
    using removeBlock_blocksCount[of env m c st] rb by simp
  then show ?case
    using Cons.IH[of st'] rb
    by (auto simp del: sweep.simps(2) simp add: sweep_drain_Cons split: prod.splits)
qed

lemma sweep_drain_delete_calls:
  "delete_calls (snd (snd (sweep env m ks e None st)))
     = delete_calls st @ filter (is_unmarked env m) ks"
proof (induction ks arbitrary: st)
  case Nil
  show ?case by simp
next
  case (Cons c cs)
  obtain r st' where rb: "removeBlock env m c st = (r, st')"
    by (cases "removeBlock env m c st")
  have "delete_calls st' = delete_calls st @ (if is_unmarked env m c then [c] else [])"
    using removeBlock_delete_calls[of env m c st] rb by (auto simp add: is_unmarked_iff)
  then show ?case
    using Cons.IH[of st'] rb
    by (auto simp del: sweep.simps(2) simp add: sweep_drain_Cons split: prod.splits)
qed

lemma sweep_drain_entries_mono:
  "set (fst (snd (sweep env m cs e None st')))
     \<subseteq> set (fst (snd (sweep env m (c # cs) e None st)))"
  if "snd (removeBlock env m c st) = st'"
  using that
  by (cases "removeBlock env m c st")
     (auto simp del: sweep.simps(2) simp add: sweep_drain_Cons split: prod.splits option.splits)

lemma sweep_drain_entry:
  assumes "x \<in> set ks" and "is_unmarked env m x"
    and "\<And>s'. fst (blocks_delete env x s') = d"
  shows "\<lparr>cid = Some x,
          err = map_option (\<lambda>er. Error None (''Could not delete block with CID ''
                                               @ cid_toString env x @ '': '' @ message er)) d\<rparr>
           \<in> set (fst (snd (sweep env m ks e None st)))"
  using assms(1)
proof (induction ks arbitrary: st)
  case Nil
  then show ?case by simp
next
  case (Cons c cs)
  show ?case
  proof (cases "x = c")
    case True
    have "fst (removeBlock env m c st) =
            Some \<lparr>cid = Some x,
                  err = map_option (\<lambda>er. Error None (''Could not delete block with CID ''
                                               @ cid_toString env x @ '': '' @ message er)) d\<rparr>"
      using removeBlock_unmarked_entry[OF assms(2), of st] assms(3)[of "store st"] True by simp
    then show ?thesis
      by (cases "removeBlock env m c st")
         (auto simp del: sweep.simps(2) simp add: sweep_drain_Cons split: prod.splits)
  next
    case False
    then have "x \<in> set cs" using Cons.prems by simp
    then show ?thesis
      using Cons.IH[of "snd (removeBlock env m c st)"]
            sweep_drain_entries_mono[of env m c st "snd (removeBlock env m c st)" cs e]
      by blast
  qed
qed



lemma gc_sweep:
  assumes "writeLock env = None" and "createMarkedSet env sched = Inr m"
    and "blocks_query env s = Inr (ks, e)"
  shows "gc env sched k s =
           (case sweep env m ks e k (init_state s) of (out, rs, st') \<Rightarrow> (out, rs, release st'))"
proof -
  have "store (init_state s) = s"
    by (simp add: init_state_def)
  then show ?thesis
    using assms
    by (simp add: gc_def try_finally_def gc_body_def deleteUnmarkedBlocks_def
          init_state_counters)
qed

subsection \<open>Deletion of unmarked blocks\<close>

text \<open>
  Claim C2, as the code has it. The claim says that a successful deletion emits no entry.
  The code emits one: \<^verbatim>\<open>removeBlock\<close> returns \<^verbatim>\<open>{ cid }\<close> after a successful
  \<^verbatim>\<open>repo.blocks.delete\<close>, and the loop filters only \<^verbatim>\<open>null\<close>, the value for retained
  blocks. In the small repository, block \<open>Y\<close> is enumerated and unmarked, its deletion
  succeeds, and the entry \<^verbatim>\<open>{ cid: Y }\<close> is among the results.
\<close>

theorem successful_delete_is_silent_counterexample:
  "createMarkedSet demo_env [] = Inr [''bA'', ''bB'', ''bC'', ''bD'']
   \<and> blocks_query demo_env demo_store = Inr (demo_store, None)
   \<and> mk_cid 1 [89] \<in> set demo_store
   \<and> multibase_encode_base32 demo_env (multihash (mk_cid 1 [89])) = Inr ''bY''
   \<and> \<not> Set_has [''bA'', ''bB'', ''bC'', ''bD''] ''bY''
   \<and> blocks_delete demo_env (mk_cid 1 [89]) demo_store
       = (None, [mk_cid 1 [65], mk_cid 0 [66], mk_cid 0 [67], mk_cid 1 [68],
                 mk_cid 1 [88], mk_cid 1 [90]])
   \<and> mk_cid 1 [89] \<notin> set (store (snd (snd (gc demo_env [] None demo_store))))
   \<and> \<lparr>cid = Some (mk_cid 1 [89]), err = None\<rparr> \<in> set (fst (snd (gc demo_env [] None demo_store)))"
  by code_simp

text \<open>
  Claim C2, amended. For every enumerated block whose encoded identifier is not in the
  marked set, a drained run attempts the deletion and emits a result entry for the block:
  when the deletion succeeds the entry carries the block's cid and no err, when it fails
  the entry carries the cid and an err.
\<close>

theorem unmarked_block_is_deleted_and_reported:
  assumes lock: "writeLock env = None"
    and marked: "createMarkedSet env sched = Inr markedSet"
    and query: "blocks_query env s = Inr (ks, e)"
    and enum: "c \<in> set ks"
    and enc: "multibase_encode_base32 env (multihash c) = Inr b32"
    and unm: "\<not> Set_has markedSet b32"
    and del: "\<And>s'. fst (blocks_delete env c s') = d"
  shows "c \<in> set (delete_calls (snd (snd (gc env sched None s))))
       \<and> (d = None \<longrightarrow>
            \<lparr>cid = Some c, err = None\<rparr> \<in> set (fst (snd (gc env sched None s))))
       \<and> (\<forall>er. d = Some er \<longrightarrow>
            \<lparr>cid = Some c,
             err = Some (Error None (''Could not delete block with CID '' @ cid_toString env c
                                      @ '': '' @ message er))\<rparr>
              \<in> set (fst (snd (gc env sched None s))))"
proof -
  have um: "is_unmarked env markedSet c"
    using enc unm by (simp add: is_unmarked_def)
  have run: "gc env sched None s =
      (case sweep env markedSet ks e None (init_state s) of
         (out, rs, st') \<Rightarrow> (out, rs, release st'))"
    using gc_sweep[OF lock marked query] .
  have "delete_calls (snd (snd (gc env sched None s))) = filter (is_unmarked env markedSet) ks"
    using sweep_drain_delete_calls[of env markedSet ks e "init_state s"]
    by (simp add: run split_beta release_def init_state_def)
  then have a: "c \<in> set (delete_calls (snd (snd (gc env sched None s))))"
    using enum um by simp
  have "\<lparr>cid = Some c,
         err = map_option (\<lambda>er. Error None (''Could not delete block with CID ''
                                              @ cid_toString env c @ '': '' @ message er)) d\<rparr>
          \<in> set (fst (snd (gc env sched None s)))"
    using sweep_drain_entry[OF enum um del, of e "init_state s"]
    by (simp add: run split_beta)
  then show ?thesis using a by auto
qed

theorem unmarked_block_is_deleted_and_reported_witness:
  "mk_cid 1 [89] \<in> set (delete_calls (snd (snd (gc demo_env [] None demo_store))))
   \<and> \<lparr>cid = Some (mk_cid 1 [89]), err = None\<rparr> \<in> set (fst (snd (gc demo_env [] None demo_store)))
   \<and> mk_cid 1 [88] \<in> set (delete_calls (snd (snd (gc demo_env [] None demo_store))))
   \<and> \<lparr>cid = Some (mk_cid 1 [88]),
       err = Some (Error None (''Could not delete block with CID '' @ ''bX'' @ '': '' @ ''EIO''))\<rparr>
        \<in> set (fst (snd (gc demo_env [] None demo_store)))"
proof -
  have lock: "writeLock demo_env = None"
    by code_simp
  have marked: "createMarkedSet demo_env [] = Inr [''bA'', ''bB'', ''bC'', ''bD'']"
    by code_simp
  have query: "blocks_query demo_env demo_store = Inr (demo_store, None)"
    by (simp add: demo_env_def)
  have enumY: "mk_cid 1 [89] \<in> set demo_store" and enumX: "mk_cid 1 [88] \<in> set demo_store"
    by code_simp+
  have encY: "multibase_encode_base32 demo_env (multihash (mk_cid 1 [89])) = Inr ''bY''"
    and encX: "multibase_encode_base32 demo_env (multihash (mk_cid 1 [88])) = Inr ''bX''"
    by code_simp+
  have unmY: "\<not> Set_has [''bA'', ''bB'', ''bC'', ''bD''] ''bY''"
    and unmX: "\<not> Set_has [''bA'', ''bB'', ''bC'', ''bD''] ''bX''"
    by code_simp+
  have delY: "\<And>s'. fst (blocks_delete demo_env (mk_cid 1 [89]) s') = None"
    by (simp add: demo_env_def demo_delete_def mk_cid_def)
  have delX: "\<And>s'. fst (blocks_delete demo_env (mk_cid 1 [88]) s') = Some (Error None ''EIO'')"
    by (simp add: demo_env_def demo_delete_def mk_cid_def)
  have strX: "cid_toString demo_env (mk_cid 1 [88]) = ''bX''"
    by code_simp
  show ?thesis
    using unmarked_block_is_deleted_and_reported[OF lock marked query enumY encY unmY delY]
          unmarked_block_is_deleted_and_reported[OF lock marked query enumX encX unmX delX]
          strX
    by simp
qed



subsection \<open>Errors of single blocks\<close>

text \<open>
  Claim C4. A failing delete call does not abort the sweep. In a drained run whose key
  enumeration ends normally and in which deleting the unmarked block \<open>x\<close> fails, the run
  completes, every enumerated key is processed, every unmarked key gets its delete call,
  the results hold an entry for \<open>x\<close> whose error message contains the identifier of \<open>x\<close>,
  and every unmarked block whose deletion succeeds is reported with its cid and no err.
\<close>

theorem delete_failure_is_isolated:
  assumes lock: "writeLock env = None"
    and marked: "createMarkedSet env sched = Inr markedSet"
    and query: "blocks_query env s = Inr (ks, None)"
    and enum: "x \<in> set ks"
    and enc: "multibase_encode_base32 env (multihash x) = Inr b32"
    and unm: "\<not> Set_has markedSet b32"
    and del: "\<And>s'. fst (blocks_delete env x s') = Some er"
  shows "fst (gc env sched None s) = Completed
       \<and> blocksCount (snd (snd (gc env sched None s))) = length ks
       \<and> delete_calls (snd (snd (gc env sched None s))) = filter (is_unmarked env markedSet) ks
       \<and> \<lparr>cid = Some x,
           err = Some (Error None (''Could not delete block with CID '' @ cid_toString env x
                                    @ '': '' @ message er))\<rparr>
            \<in> set (fst (snd (gc env sched None s)))
       \<and> sublist (cid_toString env x)
           (''Could not delete block with CID '' @ cid_toString env x @ '': '' @ message er)
       \<and> (\<forall>y \<in> set ks. is_unmarked env markedSet y
             \<and> (\<forall>s'. fst (blocks_delete env y s') = None)
             \<longrightarrow> \<lparr>cid = Some y, err = None\<rparr> \<in> set (fst (snd (gc env sched None s))))"
proof -
  have um: "is_unmarked env markedSet x"
    using enc unm by (simp add: is_unmarked_def)
  have run: "gc env sched None s =
      (case sweep env markedSet ks None None (init_state s) of
         (out, rs, st') \<Rightarrow> (out, rs, release st'))"
    using gc_sweep[OF lock marked query] .
  have a: "fst (gc env sched None s) = Completed"
    using sweep_drain_outcome[of env markedSet ks None "init_state s"]
    by (simp add: run split_beta)
  have b: "blocksCount (snd (snd (gc env sched None s))) = length ks"
    using sweep_drain_blocksCount[of env markedSet ks None "init_state s"]
    by (simp add: run split_beta release_def init_state_def)
  have c: "delete_calls (snd (snd (gc env sched None s))) = filter (is_unmarked env markedSet) ks"
    using sweep_drain_delete_calls[of env markedSet ks None "init_state s"]
    by (simp add: run split_beta release_def init_state_def)
  have d: "\<lparr>cid = Some x,
             err = Some (Error None (''Could not delete block with CID '' @ cid_toString env x
                                      @ '': '' @ message er))\<rparr>
            \<in> set (fst (snd (gc env sched None s)))"
    using sweep_drain_entry[OF enum um del, of None "init_state s"]
    by (simp add: run split_beta)
  have e: "sublist (cid_toString env x)
             (''Could not delete block with CID '' @ cid_toString env x @ '': '' @ message er)"
    by (rule sublist_appendI)
  have f: "\<lparr>cid = Some y, err = None\<rparr> \<in> set (fst (snd (gc env sched None s)))"
    if "y \<in> set ks" and "is_unmarked env markedSet y"
      and "\<forall>s'. fst (blocks_delete env y s') = None" for y
    using sweep_drain_entry[of y ks env markedSet None None "init_state s"] that
    by (simp add: run split_beta)
  show ?thesis
    using a b c d e f by blast
qed

theorem delete_failure_is_isolated_witness:
  "fst (gc demo_env [] None demo_store) = Completed
   \<and> blocksCount (snd (snd (gc demo_env [] None demo_store))) = 7
   \<and> delete_calls (snd (snd (gc demo_env [] None demo_store)))
       = [mk_cid 1 [88], mk_cid 1 [89], mk_cid 1 [90]]
   \<and> \<lparr>cid = Some (mk_cid 1 [88]),
       err = Some (Error None ''Could not delete block with CID bX: EIO'')\<rparr>
        \<in> set (fst (snd (gc demo_env [] None demo_store)))
   \<and> sublist ''bX'' ''Could not delete block with CID bX: EIO''
   \<and> \<lparr>cid = Some (mk_cid 1 [89]), err = None\<rparr> \<in> set (fst (snd (gc demo_env [] None demo_store)))
   \<and> \<lparr>cid = Some (mk_cid 1 [90]), err = None\<rparr> \<in> set (fst (snd (gc demo_env [] None demo_store)))
   \<and> store (snd (snd (gc demo_env [] None demo_store)))
       = [mk_cid 1 [65], mk_cid 0 [66], mk_cid 0 [67], mk_cid 1 [68], mk_cid 1 [88]]"
proof -
  have lock: "writeLock demo_env = None"
    by code_simp
  have marked: "createMarkedSet demo_env [] = Inr [''bA'', ''bB'', ''bC'', ''bD'']"
    by code_simp
  have query: "blocks_query demo_env demo_store = Inr (demo_store, None)"
    by (simp add: demo_env_def)
  have left: "store (snd (snd (gc demo_env [] None demo_store)))
       = [mk_cid 1 [65], mk_cid 0 [66], mk_cid 0 [67], mk_cid 1 [68], mk_cid 1 [88]]"
    by code_simp
  have enum: "mk_cid 1 [88] \<in> set demo_store"
    by code_simp
  have enc: "multibase_encode_base32 demo_env (multihash (mk_cid 1 [88])) = Inr ''bX''"
    by code_simp
  have unm: "\<not> Set_has [''bA'', ''bB'', ''bC'', ''bD''] ''bX''"
    by code_simp
  have del: "\<And>s'. fst (blocks_delete demo_env (mk_cid 1 [88]) s') = Some (Error None ''EIO'')"
    by (simp add: demo_env_def demo_delete_def mk_cid_def)
  have str: "cid_toString demo_env (mk_cid 1 [88]) = ''bX''"
    by code_simp
  have len: "length demo_store = 7"
    by code_simp
  have flt: "filter (is_unmarked demo_env [''bA'', ''bB'', ''bC'', ''bD'']) demo_store
               = [mk_cid 1 [88], mk_cid 1 [89], mk_cid 1 [90]]"
    by code_simp
  have Y: "mk_cid 1 [89] \<in> set demo_store
           \<and> is_unmarked demo_env [''bA'', ''bB'', ''bC'', ''bD''] (mk_cid 1 [89])"
    and Z: "mk_cid 1 [90] \<in> set demo_store
           \<and> is_unmarked demo_env [''bA'', ''bB'', ''bC'', ''bD''] (mk_cid 1 [90])"
    by code_simp+
  have delY: "\<forall>s'. fst (blocks_delete demo_env (mk_cid 1 [89]) s') = None"
    and delZ: "\<forall>s'. fst (blocks_delete demo_env (mk_cid 1 [90]) s') = None"
    by (simp_all add: demo_env_def demo_delete_def mk_cid_def)
  show ?thesis
    using delete_failure_is_isolated[OF lock marked query enum enc unm del]
          str len flt Y Z delY delZ left
    by simp
qed

text \<open>
  Claim C9. The two kinds of error entry differ. After a failed delete call the entry
  carries the block's cid and an err whose message begins
  \<^verbatim>\<open>Could not delete block with CID\<close>. After a failure of the encoding the entry carries
  no cid, only an err whose message begins \<^verbatim>\<open>Could delete block with CID\<close>; the
  identifier is part of the message text only.
\<close>

theorem error_entry_shapes:
  "(multibase_encode_base32 env (multihash c) = Inr b32 \<and> \<not> Set_has markedSet b32
      \<and> fst (blocks_delete env c (store st)) = Some er
    \<longrightarrow> fst (removeBlock env markedSet c st)
          = Some \<lparr>cid = Some c,
                  err = Some (Error None (''Could not delete block with CID ''
                                           @ cid_toString env c @ '': '' @ message er))\<rparr>
        \<and> prefix ''Could not delete block with CID''
            (''Could not delete block with CID '' @ cid_toString env c @ '': '' @ message er))
   \<and> (multibase_encode_base32 env (multihash c) = Inl er
    \<longrightarrow> fst (removeBlock env markedSet c st)
          = Some \<lparr>cid = None,
                  err = Some (Error None (''Could delete block with CID ''
                                           @ cid_toString env c @ '': '' @ message er))\<rparr>
        \<and> prefix ''Could delete block with CID''
            (''Could delete block with CID '' @ cid_toString env c @ '': '' @ message er)
        \<and> delete_calls (snd (removeBlock env markedSet c st)) = delete_calls st)"
proof -
  have p1: "prefix ''Could not delete block with CID'' (''Could not delete block with CID '' @ t)"
    for t :: string
    by (simp add: prefix_def)
  have p2: "prefix ''Could delete block with CID'' (''Could delete block with CID '' @ t)"
    for t :: string
    by (simp add: prefix_def)
  show ?thesis
    using p1 p2
    by (auto simp add: removeBlock_def Let_def split: prod.splits option.splits)
qed

theorem error_entry_shapes_witness:
  "fst (removeBlock demo_env [''bA''] (mk_cid 1 [88]) (init_state demo_store))
     = Some \<lparr>cid = Some (mk_cid 1 [88]),
             err = Some (Error None ''Could not delete block with CID bX: EIO'')\<rparr>
   \<and> prefix ''Could not delete block with CID'' ''Could not delete block with CID bX: EIO''
   \<and> fst (removeBlock demo_env [''bA''] (mk_cid 1 []) (init_state demo_store))
     = Some \<lparr>cid = None,
             err = Some (Error None ''Could delete block with CID b: empty buffer'')\<rparr>
   \<and> prefix ''Could delete block with CID'' ''Could delete block with CID b: empty buffer''
   \<and> delete_calls (snd (removeBlock demo_env [''bA''] (mk_cid 1 []) (init_state demo_store))) = []"
proof -
  have h1: "multibase_encode_base32 demo_env (multihash (mk_cid 1 [88])) = Inr ''bX''
            \<and> \<not> Set_has [''bA''] ''bX''
            \<and> fst (blocks_delete demo_env (mk_cid 1 [88]) (store (init_state demo_store)))
                = Some (Error None ''EIO'')"
    by code_simp
  have h2: "multibase_encode_base32 demo_env (multihash (mk_cid 1 [])) = Inl (Error None ''empty buffer'')"
    by code_simp
  have s1: "cid_toString demo_env (mk_cid 1 [88]) = ''bX''"
    and s2: "cid_toString demo_env (mk_cid 1 []) = ''b''"
    by code_simp+
  have d: "delete_calls (init_state demo_store) = []"
    by (simp add: init_state_def)
  show ?thesis
    using error_entry_shapes[of demo_env "mk_cid 1 [88]" "''bX''" "[''bA'']"
            "init_state demo_store" "Error None ''EIO''"]
          error_entry_shapes[of demo_env "mk_cid 1 []" "''bX''" "[''bA'']"
            "init_state demo_store" "Error None ''empty buffer''"]
          h1 h2 s1 s2 d
    by simp
qed



subsection \<open>The lock\<close>

text \<open>
  Claim C3. Once the write lock is acquired, every way the run can end (it completes, the
  consumer returns early, or an error is thrown) calls \<^verbatim>\<open>release()\<close> exactly once. If
  building the marked set fails, or \<^verbatim>\<open>repo.blocks.query\<close> throws, that error is what
  the run throws, no entry is produced, no delete call is made and the store is
  unchanged.
\<close>

theorem lock_is_released_once:
  assumes lock: "writeLock env = None"
  shows "releases (snd (snd (gc env sched k s))) = 1
       \<and> (\<forall>er. createMarkedSet env sched = Inl er
              \<or> (\<exists>m. createMarkedSet env sched = Inr m \<and> blocks_query env s = Inl er)
            \<longrightarrow> fst (gc env sched k s) = Thrown er
              \<and> fst (snd (gc env sched k s)) = []
              \<and> delete_calls (snd (snd (gc env sched k s))) = []
              \<and> store (snd (snd (gc env sched k s))) = s)"
proof -
  obtain out rs st where run: "gc env sched k s = (out, rs, st)"
    by (cases "gc env sched k s")
  have "releases st = 1
       \<and> (\<forall>er. createMarkedSet env sched = Inl er
              \<or> (\<exists>m. createMarkedSet env sched = Inr m \<and> blocks_query env s = Inl er)
            \<longrightarrow> out = Thrown er \<and> rs = [] \<and> delete_calls st = [] \<and> store st = s)"
    using run
  proof (cases rule: gc_cases)
    case (lock er)
    then show ?thesis using assms by simp
  next
    case (mark er)
    then show ?thesis by (simp add: release_def init_state_def)
  next
    case (query m er)
    then show ?thesis by (simp add: release_def init_state_def)
  next
    case (sweep m ks e st')
    have "releases st' = 0"
      using sweep_releases[of env m ks e k "init_state s"] sweep(4)
      by (simp add: init_state_def)
    then show ?thesis
      using sweep by (simp add: release_def)
  qed
  then show ?thesis
    using run by simp
qed

theorem lock_is_released_once_witness:
  "fst (gc demo_env [] None demo_store) = Completed
   \<and> releases (snd (snd (gc demo_env [] None demo_store))) = 1
   \<and> fst (gc demo_env [] (Some 0) demo_store) = Returned
   \<and> releases (snd (snd (gc demo_env [] (Some 0) demo_store))) = 1
   \<and> fst (gc (demo_env\<lparr>blocks_query := \<lambda>s. Inr (s, Some (Error None ''EIO''))\<rparr>)
            [] None demo_store) = Thrown (Error None ''EIO'')
   \<and> releases (snd (snd (gc (demo_env\<lparr>blocks_query := \<lambda>s. Inr (s, Some (Error None ''EIO''))\<rparr>)
            [] None demo_store))) = 1
   \<and> gc (demo_env\<lparr>getInternalBlocks := Inl (Error None ''EIO'')\<rparr>) [] None demo_store
       = (Thrown (Error None ''EIO''), [],
          \<lparr>store = demo_store, releases = 1, delete_calls = [],
           blocksCount = 0, removedBlocksCount = 0\<rparr>)
   \<and> gc (demo_env\<lparr>blocks_query := \<lambda>s. Inl (Error None ''EIO'')\<rparr>) [] None demo_store
       = (Thrown (Error None ''EIO''), [],
          \<lparr>store = demo_store, releases = 1, delete_calls = [],
           blocksCount = 0, removedBlocksCount = 0\<rparr>)"
proof -
  have l: "writeLock demo_env = None"
    by code_simp
  have l1: "writeLock (demo_env\<lparr>blocks_query := \<lambda>s. Inr (s, Some (Error None ''EIO''))\<rparr>) = None"
    and l2: "writeLock (demo_env\<lparr>getInternalBlocks := Inl (Error None ''EIO'')\<rparr>) = None"
    and l3: "writeLock (demo_env\<lparr>blocks_query := \<lambda>s. Inl (Error None ''EIO'')\<rparr>) = None"
    using l by simp_all
  have o1: "fst (gc demo_env [] None demo_store) = Completed"
    and o2: "fst (gc demo_env [] (Some 0) demo_store) = Returned"
    and o3: "fst (gc (demo_env\<lparr>blocks_query := \<lambda>s. Inr (s, Some (Error None ''EIO''))\<rparr>)
               [] None demo_store) = Thrown (Error None ''EIO'')"
    by code_simp+
  have m: "createMarkedSet (demo_env\<lparr>getInternalBlocks := Inl (Error None ''EIO'')\<rparr>) []
             = Inl (Error None ''EIO'')"
    by code_simp
  have q: "createMarkedSet (demo_env\<lparr>blocks_query := \<lambda>s. Inl (Error None ''EIO'')\<rparr>) []
             = Inr [''bA'', ''bB'', ''bC'', ''bD'']
           \<and> blocks_query (demo_env\<lparr>blocks_query := \<lambda>s. Inl (Error None ''EIO'')\<rparr>) demo_store
             = Inl (Error None ''EIO'')"
    by code_simp
  have eq: "x = (fst x, fst (snd x), snd (snd x))" for x :: "outcome \<times> entry list \<times> CID list run_state"
    by simp
  have st: "blocksCount (snd (snd (gc env [] None demo_store))) = 0
            \<and> removedBlocksCount (snd (snd (gc env [] None demo_store))) = 0"
    if "writeLock env = None" "createMarkedSet env [] = Inl er
         \<or> (\<exists>m. createMarkedSet env [] = Inr m \<and> blocks_query env demo_store = Inl er)"
    for env :: "CID list env" and er
    using that
    by (auto simp add: gc_def try_finally_def gc_body_def release_def init_state_def)
  note a = lock_is_released_once[OF l, of "[]" None demo_store]
    and b = lock_is_released_once[OF l, of "[]" "Some 0" demo_store]
    and c = lock_is_released_once[OF l1, of "[]" None demo_store]
    and d = lock_is_released_once[OF l2, of "[]" None demo_store]
    and e = lock_is_released_once[OF l3, of "[]" None demo_store]
  have d': "gc (demo_env\<lparr>getInternalBlocks := Inl (Error None ''EIO'')\<rparr>) [] None demo_store
       = (Thrown (Error None ''EIO''), [],
          \<lparr>store = demo_store, releases = 1, delete_calls = [],
           blocksCount = 0, removedBlocksCount = 0\<rparr>)"
    using d m st[OF l2, of "Error None ''EIO''"]
    by (subst eq) (simp del: One_nat_def)
  have e': "gc (demo_env\<lparr>blocks_query := \<lambda>s. Inl (Error None ''EIO'')\<rparr>) [] None demo_store
       = (Thrown (Error None ''EIO''), [],
          \<lparr>store = demo_store, releases = 1, delete_calls = [],
           blocksCount = 0, removedBlocksCount = 0\<rparr>)"
    using e q st[OF l3, of "Error None ''EIO''"]
    by (subst eq) (simp del: One_nat_def)
  show ?thesis
    using a b c d' e' o1 o2 o3 by simp
qed



subsection \<open>The merge of the sources\<close>

lemma drain_items_subset:
  "set (fst (drain srcs)) \<subseteq> (\<Union>j<length srcs. set (fst (srcs ! j)))"
proof (induction srcs rule: drain.induct)
  case 1
  show ?case by simp
next
  case (2 xs rest)
  have "set (fst (drain rest)) \<subseteq> (\<Union>j<length ((xs, None) # rest). set (fst (((xs, None) # rest) ! j)))"
  proof
    fix x assume "x \<in> set (fst (drain rest))"
    then obtain j where "j < length rest" "x \<in> set (fst (rest ! j))"
      using 2 by auto
    then have "Suc j < length ((xs, None) # rest)" "x \<in> set (fst (((xs, None) # rest) ! Suc j))"
      by simp_all
    then show "x \<in> (\<Union>j<length ((xs, None) # rest). set (fst (((xs, None) # rest) ! j)))"
      by blast
  qed
  moreover have "set xs \<subseteq> (\<Union>j<length ((xs, None) # rest). set (fst (((xs, None) # rest) ! j)))"
    by force
  ultimately show ?case
    by (simp add: split_beta)
next
  case (3 xs e rest)
  show ?case by force
qed

lemma drain_all_items:
  "\<forall>j<length srcs. snd (srcs ! j) = None \<Longrightarrow>
     snd (drain srcs) = None \<and> set (fst (drain srcs)) = (\<Union>j<length srcs. set (fst (srcs ! j)))"
proof (induction srcs rule: drain.induct)
  case 1
  show ?case by simp
next
  case (2 xs rest)
  have "\<forall>j<length rest. snd (rest ! j) = None"
    using 2(2) by (metis Suc_less_eq length_Cons nth_Cons_Suc)
  then have ih: "snd (drain rest) = None"
    "set (fst (drain rest)) = (\<Union>j<length rest. set (fst (rest ! j)))"
    using 2(1) by simp_all
  have "(\<Union>j<length ((xs, None) # rest). set (fst (((xs, None) # rest) ! j)))
          = set xs \<union> (\<Union>j<length rest. set (fst (rest ! j)))"
    by (auto simp add: nth_Cons less_Suc_eq_0_disj split: nat.splits)
  then show ?case
    using ih by (simp add: split_beta)
next
  case (3 xs e rest)
  then show ?case by force
qed

lemma drain_error_origin:
  "snd (drain srcs) = Some er \<Longrightarrow> \<exists>j<length srcs. snd (srcs ! j) = Some er"
proof (induction srcs rule: drain.induct)
  case 1
  then show ?case by simp
next
  case (2 xs rest)
  then obtain j where "j < length rest" "snd (rest ! j) = Some er"
    by (auto simp add: split_beta)
  then have "Suc j < length ((xs, None) # rest)" "snd (((xs, None) # rest) ! Suc j) = Some er"
    by simp_all
  then show ?case by blast
next
  case (3 xs e rest)
  then show ?case by force
qed

lemma drain_error_kept:
  "\<exists>j<length srcs. snd (srcs ! j) \<noteq> None \<Longrightarrow> snd (drain srcs) \<noteq> None"
proof (induction srcs rule: drain.induct)
  case 1
  then show ?case by simp
next
  case (2 xs rest)
  then obtain j where j: "j < length ((xs, None) # rest)" "snd (((xs, None) # rest) ! j) \<noteq> None"
    by blast
  then have "j \<noteq> 0" by (cases j) auto
  then obtain j' where "j = Suc j'" by (cases j) auto
  then have "\<exists>j<length rest. snd (rest ! j) \<noteq> None"
    using j by auto
  then show ?case
    using 2(1) by (simp add: split_beta)
next
  case (3 xs e rest)
  show ?case by simp
qed

lemma parallelMerge_items_subset:
  "set (fst (parallelMerge sched srcs)) \<subseteq> (\<Union>j<length srcs. set (fst (srcs ! j)))"
proof (induction sched arbitrary: srcs)
  case Nil
  show ?case using drain_items_subset by simp
next
  case (Cons i sched)
  show ?case
  proof (cases "i < length srcs")
    case False
    then show ?thesis using Cons.IH[of srcs] by simp
  next
    case True
    obtain its e where si: "srcs ! i = (its, e)" by (cases "srcs ! i")
    show ?thesis
    proof (cases its)
      case Nil
      then show ?thesis
        using True si Cons.IH[of srcs] by (cases e) simp_all
    next
      case (Cons x xs)
      let ?srcs' = "srcs[i := (xs, e)]"
      have "(\<Union>j<length ?srcs'. set (fst (?srcs' ! j))) \<subseteq> (\<Union>j<length srcs. set (fst (srcs ! j)))"
      proof
        fix y assume "y \<in> (\<Union>j<length ?srcs'. set (fst (?srcs' ! j)))"
        then obtain j where j: "j < length srcs" "y \<in> set (fst (?srcs' ! j))" by auto
        then have "y \<in> set (fst (srcs ! j))"
          using si Cons True by (cases "j = i") (simp_all add: nth_list_update)
        then show "y \<in> (\<Union>j<length srcs. set (fst (srcs ! j)))" using j(1) by blast
      qed
      moreover have "x \<in> (\<Union>j<length srcs. set (fst (srcs ! j)))"
        using True si Cons by force
      ultimately show ?thesis
        using True si Cons Cons.IH[of ?srcs'] by (auto simp add: split_beta)
    qed
  qed
qed

lemma parallelMerge_all_items:
  "\<forall>j<length srcs. snd (srcs ! j) = None \<Longrightarrow>
     snd (parallelMerge sched srcs) = None
     \<and> set (fst (parallelMerge sched srcs)) = (\<Union>j<length srcs. set (fst (srcs ! j)))"
proof (induction sched arbitrary: srcs)
  case Nil
  then show ?case using drain_all_items by simp
next
  case (Cons i sched)
  show ?case
  proof (cases "i < length srcs")
    case False
    then show ?thesis using Cons.IH[of srcs] Cons.prems by simp
  next
    case True
    obtain its e where si: "srcs ! i = (its, e)" by (cases "srcs ! i")
    have e: "e = None" using Cons.prems True si by force
    show ?thesis
    proof (cases its)
      case Nil
      then show ?thesis
        using True si e Cons.IH[of srcs] Cons.prems by simp
    next
      case (Cons x xs)
      let ?srcs' = "srcs[i := (xs, e)]"
      have ends: "\<forall>j<length ?srcs'. snd (?srcs' ! j) = None"
        using Cons.prems e True by (auto simp add: nth_list_update)
      have "insert x (\<Union>j<length ?srcs'. set (fst (?srcs' ! j))) = (\<Union>j<length srcs. set (fst (srcs ! j)))"
      proof (rule set_eqI)
        fix y
        show "y \<in> insert x (\<Union>j<length ?srcs'. set (fst (?srcs' ! j)))
                \<longleftrightarrow> y \<in> (\<Union>j<length srcs. set (fst (srcs ! j)))"
        proof
          assume "y \<in> insert x (\<Union>j<length ?srcs'. set (fst (?srcs' ! j)))"
          then consider "y = x" | j where "j < length srcs" "y \<in> set (fst (?srcs' ! j))"
            by auto
          then show "y \<in> (\<Union>j<length srcs. set (fst (srcs ! j)))"
          proof cases
            case 1
            then show ?thesis using True si Cons by force
          next
            case 2
            then have "y \<in> set (fst (srcs ! j))"
              using si Cons True by (cases "j = i") (simp_all add: nth_list_update)
            then show ?thesis using 2(1) by blast
          qed
        next
          assume "y \<in> (\<Union>j<length srcs. set (fst (srcs ! j)))"
          then obtain j where j: "j < length srcs" "y \<in> set (fst (srcs ! j))" by auto
          show "y \<in> insert x (\<Union>j<length ?srcs'. set (fst (?srcs' ! j)))"
          proof (cases "j = i")
            case True
            then have "y = x \<or> y \<in> set (fst (?srcs' ! i))"
              using j si Cons by simp
            moreover have "i < length ?srcs'" using j(1) True by simp
            ultimately show ?thesis by blast
          next
            case False
            then have "y \<in> set (fst (?srcs' ! j))" using j by simp
            then show ?thesis using j(1) by auto
          qed
        qed
      qed
      then show ?thesis
        using True si Cons Cons.IH[OF ends] by (simp add: split_beta)
    qed
  qed
qed

lemma parallelMerge_error_origin:
  "snd (parallelMerge sched srcs) = Some er \<Longrightarrow> \<exists>j<length srcs. snd (srcs ! j) = Some er"
proof (induction sched arbitrary: srcs)
  case Nil
  then show ?case using drain_error_origin by simp
next
  case (Cons i sched)
  show ?case
  proof (cases "i < length srcs")
    case False
    then show ?thesis using Cons.IH[of srcs] Cons.prems by simp
  next
    case True
    obtain its e where si: "srcs ! i = (its, e)" by (cases "srcs ! i")
    show ?thesis
    proof (cases its)
      case Nil
      show ?thesis
      proof (cases e)
        case None
        then show ?thesis using True si Nil Cons.IH[of srcs] Cons.prems by simp
      next
        case (Some er')
        then have "er' = er" using True si Nil Cons.prems by simp
        then show ?thesis using True si Some by force
      qed
    next
      case (Cons x xs)
      let ?srcs' = "srcs[i := (xs, e)]"
      have "snd (parallelMerge sched ?srcs') = Some er"
        using Cons.prems True si Cons by (simp add: split_beta)
      then obtain j where j: "j < length srcs" "snd (?srcs' ! j) = Some er"
        using Cons.IH[of ?srcs'] by auto
      then have "snd (srcs ! j) = Some er"
        using si by (cases "j = i") (simp_all add: nth_list_update)
      then show ?thesis using j(1) by blast
    qed
  qed
qed

lemma parallelMerge_error_kept:
  "\<exists>j<length srcs. snd (srcs ! j) \<noteq> None \<Longrightarrow> snd (parallelMerge sched srcs) \<noteq> None"
proof (induction sched arbitrary: srcs)
  case Nil
  then show ?case using drain_error_kept by simp
next
  case (Cons i sched)
  show ?case
  proof (cases "i < length srcs")
    case False
    then show ?thesis using Cons.IH[of srcs] Cons.prems by simp
  next
    case True
    obtain its e where si: "srcs ! i = (its, e)" by (cases "srcs ! i")
    show ?thesis
    proof (cases its)
      case Nil
      then show ?thesis
        using True si Cons.IH[of srcs] Cons.prems by (cases e) simp_all
    next
      case (Cons x xs)
      let ?srcs' = "srcs[i := (xs, e)]"
      obtain j where j: "j < length srcs" "snd (srcs ! j) \<noteq> None"
        using Cons.prems by blast
      then have "snd (?srcs' ! j) \<noteq> None"
        using si by (cases "j = i") (simp_all add: nth_list_update)
      then have "\<exists>j<length ?srcs'. snd (?srcs' ! j) \<noteq> None"
        using j(1) by auto
      then show ?thesis
        using True si Cons Cons.IH[of ?srcs'] by (simp add: split_beta)
    qed
  qed
qed



subsection \<open>The marked set\<close>

lemma Set_add_set: "set (Set_add x xs) = insert x (set xs)"
  by (auto simp add: Set_add_def)

lemma Set_add_distinct: "distinct xs \<Longrightarrow> distinct (Set_add x xs)"
  by (simp add: Set_add_def)

lemma add_all_Inr:
  assumes "add_all enc cs out = Inr res"
  shows "(\<forall>c \<in> set cs. \<exists>b. enc (multihash c) = Inr b)
       \<and> set res = set out \<union> {b. \<exists>c \<in> set cs. enc (multihash c) = Inr b}
       \<and> (distinct out \<longrightarrow> distinct res)"
  using assms
proof (induction cs arbitrary: out)
  case Nil
  then show ?case by simp
next
  case (Cons c cs)
  then obtain b where b: "enc (multihash c) = Inr b"
    and rest: "add_all enc cs (Set_add b out) = Inr res"
    by (auto split: sum.splits)
  show ?case
    using Cons.IH[OF rest] b by (auto simp add: Set_add_set Set_add_distinct)
qed

lemma add_all_total:
  "\<forall>c \<in> set cs. \<exists>b. enc (multihash c) = Inr b \<Longrightarrow> \<exists>res. add_all enc cs out = Inr res"
  by (induction cs arbitrary: out) auto

lemma add_all_Inl:
  "add_all enc cs out = Inl er \<Longrightarrow> \<exists>c \<in> set cs. enc (multihash c) = Inl er"
  by (induction cs arbitrary: out) (auto split: sum.splits)

lemma less_three: "j < Suc (Suc (Suc 0)) \<longleftrightarrow> j = 0 \<or> j = Suc 0 \<or> j = Suc (Suc 0)"
  by auto

lemma three_sources_items:
  "(\<Union>j<length [a, b, c]. set (fst ([a, b, c] ! j))) = set (fst a) \<union> set (fst b) \<union> set (fst c)"
  by (auto simp add: less_three)

lemma three_sources_ends:
  "(\<forall>j<length [a, b, c]. snd ([a, b, c] ! j) = None)
     \<longleftrightarrow> snd a = None \<and> snd b = None \<and> snd c = None"
  by (auto simp add: less_three)

lemma three_sources_error:
  "(\<exists>j<length [a, b, c]. snd ([a, b, c] ! j) = Some er)
     \<longleftrightarrow> snd a = Some er \<or> snd b = Some er \<or> snd c = Some er"
  by (auto simp add: less_three)

lemma distinct_count_list_one: "distinct xs \<Longrightarrow> x \<in> set xs \<Longrightarrow> count_list xs x = 1"
  by (induction xs) auto

lemma createMarkedSet_Inr:
  assumes "createMarkedSet env sched = Inr output"
  shows "snd (pinsSource env) = None \<and> snd (pinInternalsSource env) = None
       \<and> snd (mfsSource env) = None
       \<and> (\<forall>c \<in> source_cids env. \<exists>b. multibase_encode_base32 env (multihash c) = Inr b)
       \<and> set output = {b. \<exists>c \<in> source_cids env. multibase_encode_base32 env (multihash c) = Inr b}
       \<and> distinct output"
proof -
  let ?srcs = "[pinsSource env, pinInternalsSource env, mfsSource env]"
  obtain cids e where pm: "parallelMerge sched ?srcs = (cids, e)"
    by (cases "parallelMerge sched ?srcs")
  have aa: "add_all (multibase_encode_base32 env) cids [] = Inr output" and e: "e = None"
    using assms pm by (auto simp add: createMarkedSet_def split: sum.splits option.splits)
  have "snd (parallelMerge sched ?srcs) = None"
    using pm e by simp
  then have "\<not> (\<exists>j<length ?srcs. snd (?srcs ! j) \<noteq> None)"
    using parallelMerge_error_kept[of ?srcs sched] by blast
  then have ends: "\<forall>j<length ?srcs. snd (?srcs ! j) = None"
    by blast
  then have ends3: "snd (pinsSource env) = None \<and> snd (pinInternalsSource env) = None
       \<and> snd (mfsSource env) = None"
    using three_sources_ends by blast
  have "set (fst (parallelMerge sched ?srcs)) = (\<Union>j<length ?srcs. set (fst (?srcs ! j)))"
    using parallelMerge_all_items[OF ends, of sched] by blast
  then have "set cids = source_cids env"
    unfolding three_sources_items source_cids_def using pm by simp
  then show ?thesis
    using add_all_Inr[OF aa] ends3 by simp
qed

lemma createMarkedSet_total:
  assumes "snd (pinsSource env) = None" and "snd (pinInternalsSource env) = None"
    and "snd (mfsSource env) = None"
    and "\<forall>c \<in> source_cids env. \<exists>b. multibase_encode_base32 env (multihash c) = Inr b"
  shows "\<exists>output. createMarkedSet env sched = Inr output"
proof -
  let ?srcs = "[pinsSource env, pinInternalsSource env, mfsSource env]"
  obtain cids e where pm: "parallelMerge sched ?srcs = (cids, e)"
    by (cases "parallelMerge sched ?srcs")
  have ends: "\<forall>j<length ?srcs. snd (?srcs ! j) = None"
    using assms(1-3) three_sources_ends by blast
  have "snd (parallelMerge sched ?srcs) = None"
    and "set (fst (parallelMerge sched ?srcs)) = (\<Union>j<length ?srcs. set (fst (?srcs ! j)))"
    using parallelMerge_all_items[OF ends, of sched] by blast+
  then have "e = None" and "set cids = source_cids env"
    unfolding three_sources_items source_cids_def using pm by simp_all
  moreover obtain res where "add_all (multibase_encode_base32 env) cids [] = Inr res"
    using add_all_total[of cids "multibase_encode_base32 env" "[]"] assms(4)
      \<open>set cids = source_cids env\<close> by auto
  ultimately show ?thesis
    using pm by (simp add: createMarkedSet_def)
qed

lemma createMarkedSet_Inl:
  assumes "createMarkedSet env sched = Inl er"
  shows "snd (pinsSource env) = Some er \<or> snd (pinInternalsSource env) = Some er
       \<or> snd (mfsSource env) = Some er
       \<or> (\<exists>c \<in> source_cids env. multibase_encode_base32 env (multihash c) = Inl er)"
proof -
  let ?srcs = "[pinsSource env, pinInternalsSource env, mfsSource env]"
  obtain cids e where pm: "parallelMerge sched ?srcs = (cids, e)"
    by (cases "parallelMerge sched ?srcs")
  have "set (fst (parallelMerge sched ?srcs)) \<subseteq> (\<Union>j<length ?srcs. set (fst (?srcs ! j)))"
    by (rule parallelMerge_items_subset)
  then have sub: "set cids \<subseteq> source_cids env"
    unfolding three_sources_items source_cids_def using pm by simp
  show ?thesis
  proof (cases "add_all (multibase_encode_base32 env) cids []")
    case (Inl er')
    then have "er' = er" using assms pm by (simp add: createMarkedSet_def)
    then show ?thesis using add_all_Inl[OF Inl] sub by blast
  next
    case (Inr res)
    then have "e = Some er"
      using assms pm by (simp add: createMarkedSet_def split: option.splits)
    then have "snd (parallelMerge sched ?srcs) = Some er"
      using pm by simp
    then have "\<exists>j<length ?srcs. snd (?srcs ! j) = Some er"
      by (rule parallelMerge_error_origin)
    then show ?thesis unfolding three_sources_error by blast
  qed
qed

lemma createMarkedSet_schedule:
  assumes "createMarkedSet env sched = Inr output"
  shows "\<exists>output'. createMarkedSet env sched' = Inr output' \<and> set output' = set output
           \<and> length output' = length output"
proof -
  note a = createMarkedSet_Inr[OF assms]
  have "\<exists>output'. createMarkedSet env sched' = Inr output'"
    by (rule createMarkedSet_total) (use a in simp_all)
  then obtain output' where o': "createMarkedSet env sched' = Inr output'"
    by blast
  note b = createMarkedSet_Inr[OF o']
  have "set output' = set output" using a b by simp
  moreover have "length output' = length output"
    using a b distinct_card[of "output"] distinct_card[of "output'"] by simp
  ultimately show ?thesis using o' by blast
qed

lemma createMarkedSet_marks:
  assumes "createMarkedSet env sched = Inr output" and "c \<in> source_cids env"
  shows "is_marked env output c"
  using createMarkedSet_Inr[OF assms(1)] assms(2)
  by (auto simp add: is_marked_def Set_has_def split: sum.splits)

text \<open>
  Claim C7. Every identifier that a source yields is encoded and inserted into the set,
  and inserting an element that is already there changes nothing. So the marked set
  holds the encoding of every yielded identifier exactly once and its size is the number
  of different encodings, whichever source yields an identifier, however often, and in
  whatever order the merge delivers the identifiers.
\<close>

theorem marked_set_deduplicates:
  assumes "createMarkedSet env sched = Inr output"
  shows "(\<forall>c \<in> source_cids env. \<exists>b. multibase_encode_base32 env (multihash c) = Inr b
            \<and> Set_has output b \<and> count_list output b = 1)
       \<and> set output = {b. \<exists>c \<in> source_cids env. multibase_encode_base32 env (multihash c) = Inr b}
       \<and> Set_size output
           = card {b. \<exists>c \<in> source_cids env. multibase_encode_base32 env (multihash c) = Inr b}
       \<and> (\<forall>b. Set_has output b \<longrightarrow> Set_add b output = output)
       \<and> (\<forall>sched'. \<exists>output'. createMarkedSet env sched' = Inr output'
             \<and> set output' = set output \<and> Set_size output' = Set_size output)"
proof -
  note a = createMarkedSet_Inr[OF assms]
  have d: "distinct output" using a by simp
  have once: "count_list output b = 1" if "b \<in> set output" for b
    using d that by (rule distinct_count_list_one)
  have one: "\<forall>c \<in> source_cids env. \<exists>b. multibase_encode_base32 env (multihash c) = Inr b
            \<and> Set_has output b \<and> count_list output b = 1"
  proof
    fix c assume c: "c \<in> source_cids env"
    then obtain b where b: "multibase_encode_base32 env (multihash c) = Inr b"
      using a by blast
    then have "b \<in> set output" using a c by auto
    then show "\<exists>b. multibase_encode_base32 env (multihash c) = Inr b
            \<and> Set_has output b \<and> count_list output b = 1"
      using b once by (auto simp add: Set_has_def)
  qed
  have size: "Set_size output
           = card {b. \<exists>c \<in> source_cids env. multibase_encode_base32 env (multihash c) = Inr b}"
    using a distinct_card[OF d] by (simp add: Set_size_def)
  have noop: "\<forall>b. Set_has output b \<longrightarrow> Set_add b output = output"
    by (simp add: Set_has_def Set_add_def)
  have sched: "\<forall>sched'. \<exists>output'. createMarkedSet env sched' = Inr output'
             \<and> set output' = set output \<and> Set_size output' = Set_size output"
    using createMarkedSet_schedule[OF assms] by (simp add: Set_size_def)
  show ?thesis
    using one a size noop sched by blast
qed

theorem marked_set_deduplicates_witness:
  "createMarkedSet demo_env [] = Inr [''bA'', ''bB'', ''bC'', ''bD'']
   \<and> fst (pinsSource demo_env) = [mk_cid 1 [65]]
   \<and> fst (pinInternalsSource demo_env) = [mk_cid 0 [66], mk_cid 1 [65]]
   \<and> fst (mfsSource demo_env) = [mk_cid 0 [67], mk_cid 1 [68]]
   \<and> multibase_encode_base32 demo_env (multihash (mk_cid 1 [65])) = Inr ''bA''
   \<and> count_list [''bA'', ''bB'', ''bC'', ''bD''] ''bA'' = 1
   \<and> Set_size [''bA'', ''bB'', ''bC'', ''bD'']
       = card {b. \<exists>c \<in> source_cids demo_env. multibase_encode_base32 demo_env (multihash c) = Inr b}
   \<and> Set_add ''bA'' [''bA'', ''bB'', ''bC'', ''bD''] = [''bA'', ''bB'', ''bC'', ''bD'']
   \<and> createMarkedSet demo_env [2, 2, 1, 1, 0] = Inr [''bC'', ''bD'', ''bB'', ''bA'']
   \<and> Set_size [''bC'', ''bD'', ''bB'', ''bA''] = Set_size [''bA'', ''bB'', ''bC'', ''bD'']"
proof -
  have h: "createMarkedSet demo_env [] = Inr [''bA'', ''bB'', ''bC'', ''bD'']"
    by code_simp
  have s: "fst (pinsSource demo_env) = [mk_cid 1 [65]]
   \<and> fst (pinInternalsSource demo_env) = [mk_cid 0 [66], mk_cid 1 [65]]
   \<and> fst (mfsSource demo_env) = [mk_cid 0 [67], mk_cid 1 [68]]
   \<and> multibase_encode_base32 demo_env (multihash (mk_cid 1 [65])) = Inr ''bA''
   \<and> count_list [''bA'', ''bB'', ''bC'', ''bD''] ''bA'' = 1
   \<and> Set_add ''bA'' [''bA'', ''bB'', ''bC'', ''bD''] = [''bA'', ''bB'', ''bC'', ''bD'']
   \<and> createMarkedSet demo_env [2, 2, 1, 1, 0] = Inr [''bC'', ''bD'', ''bB'', ''bA'']
   \<and> Set_size [''bC'', ''bD'', ''bB'', ''bA''] = Set_size [''bA'', ''bB'', ''bC'', ''bD'']"
    by code_simp
  note t = marked_set_deduplicates[OF h]
  have size: "Set_size [''bA'', ''bB'', ''bC'', ''bD'']
       = card {b. \<exists>c \<in> source_cids demo_env. multibase_encode_base32 demo_env (multihash c) = Inr b}"
    using t by blast
  show ?thesis
    using h s size by blast
qed



subsection \<open>Retention depends on the multihash only\<close>

text \<open>
  Claim C10. The marked set is built from \<^verbatim>\<open>cid.multihash\<close> alone and the sweep tests
  \<^verbatim>\<open>cid.multihash\<close> alone. So two identifiers with the same multihash (they may differ in
  version or codec) are interchangeable: they add the same element to the set,
  \<^verbatim>\<open>removeBlock\<close> retains the one exactly when it retains the other, and when a source
  yields one of them, a run retains every block key carrying the other: it is not
  deleted and no entry carries it.
\<close>

theorem retention_by_multihash_only:
  assumes same: "multihash c1 = multihash c2"
  shows "add_all (multibase_encode_base32 env) (c1 # cs) out
           = add_all (multibase_encode_base32 env) (c2 # cs) out
       \<and> (fst (removeBlock env m c1 st) = None \<longleftrightarrow> fst (removeBlock env m c2 st) = None)
       \<and> (\<forall>markedSet. createMarkedSet env sched = Inr markedSet \<and> c1 \<in> source_cids env
            \<longrightarrow> removeBlock env markedSet c2 st = (None, st\<lparr>blocksCount := blocksCount st + 1\<rparr>)
              \<and> c2 \<notin> set (delete_calls (snd (snd (gc env sched k s))))
              \<and> (\<forall>r \<in> set (fst (snd (gc env sched k s))). cid r \<noteq> Some c2))"
proof -
  have a: "add_all (multibase_encode_base32 env) (c1 # cs) out
           = add_all (multibase_encode_base32 env) (c2 # cs) out"
    using same by simp
  have b: "fst (removeBlock env m c1 st) = None \<longleftrightarrow> fst (removeBlock env m c2 st) = None"
    using same
    by (auto simp add: removeBlock_def Let_def split: sum.splits prod.splits option.splits)
  have c: "removeBlock env markedSet c2 st = (None, st\<lparr>blocksCount := blocksCount st + 1\<rparr>)
              \<and> c2 \<notin> set (delete_calls (snd (snd (gc env sched k s))))
              \<and> (\<forall>r \<in> set (fst (snd (gc env sched k s))). cid r \<noteq> Some c2)"
    if ms: "createMarkedSet env sched = Inr markedSet" and src: "c1 \<in> source_cids env"
    for markedSet
  proof -
    have mk: "is_marked env markedSet c2"
      using createMarkedSet_marks[OF ms src] same_multihash_marked[OF same] by blast
    have one: "removeBlock env markedSet c2 st = (None, st\<lparr>blocksCount := blocksCount st + 1\<rparr>)"
      using mk by (rule removeBlock_marked)
    obtain out rs st' where run: "gc env sched k s = (out, rs, st')"
      by (cases "gc env sched k s")
    have "c2 \<notin> set (delete_calls st') \<and> (\<forall>r \<in> set rs. cid r \<noteq> Some c2)"
      using run
    proof (cases rule: gc_cases)
      case (lock er)
      then show ?thesis by (simp add: init_state_def)
    next
      case (mark er)
      then show ?thesis by (simp add: init_state_def release_def)
    next
      case (query m er)
      then show ?thesis by (simp add: init_state_def release_def)
    next
      case (sweep m' ks e st'')
      have m': "m' = markedSet" using sweep(2) ms by simp
      have "set (delete_calls st'') \<subseteq> {c \<in> set ks. \<not> is_marked env m' c}"
        using sweep_delete_calls[of env m' ks e k "init_state s"] sweep(4)
        by (simp add: init_state_def)
      then have x: "c2 \<notin> set (delete_calls st')"
        using mk m' sweep(5) by (auto simp add: release_def)
      have "\<forall>r \<in> set rs. cid r \<noteq> Some c2"
        using sweep_entry_cid[of _ env m' ks e k "init_state s" c2] sweep(4) mk m' by auto
      then show ?thesis using x by simp
    qed
    then show ?thesis using one run by simp
  qed
  show ?thesis
    using a b c by blast
qed

theorem retention_by_multihash_only_witness:
  "multihash (mk_cid 1 [65]) = multihash (mk_cid 0 [65])
   \<and> createMarkedSet demo_env [] = Inr [''bA'', ''bB'', ''bC'', ''bD'']
   \<and> mk_cid 1 [65] \<in> source_cids demo_env
   \<and> mk_cid 0 [65] \<notin> source_cids demo_env
   \<and> add_all (multibase_encode_base32 demo_env) [mk_cid 1 [65]] []
       = add_all (multibase_encode_base32 demo_env) [mk_cid 0 [65]] []
   \<and> fst (removeBlock demo_env [''bA''] (mk_cid 1 [65]) (init_state [])) = None
   \<and> fst (removeBlock demo_env [''bA''] (mk_cid 0 [65]) (init_state [])) = None
   \<and> mk_cid 0 [65] \<notin> set (delete_calls (snd (snd (gc demo_env [] None (mk_cid 0 [65] # demo_store)))))
   \<and> Some (mk_cid 0 [65]) \<notin> set (map cid (fst (snd (gc demo_env [] None (mk_cid 0 [65] # demo_store)))))
   \<and> mk_cid 0 [65] \<in> set (store (snd (snd (gc demo_env [] None (mk_cid 0 [65] # demo_store)))))"
proof -
  have same: "multihash (mk_cid 1 [65]) = multihash (mk_cid 0 [65])"
    by (simp add: mk_cid_def)
  have ms: "createMarkedSet demo_env [] = Inr [''bA'', ''bB'', ''bC'', ''bD'']"
    by code_simp
  have src: "mk_cid 1 [65] \<in> source_cids demo_env" and nsrc: "mk_cid 0 [65] \<notin> source_cids demo_env"
    by code_simp+
  have r1: "fst (removeBlock demo_env [''bA''] (mk_cid 1 [65]) (init_state [])) = None"
    by code_simp
  have st: "mk_cid 0 [65] \<in> set (store (snd (snd (gc demo_env [] None (mk_cid 0 [65] # demo_store)))))"
    by code_simp
  note t = retention_by_multihash_only[OF same, of demo_env "[]" "[]" "[''bA'']" "init_state []"
             "[]" None "mk_cid 0 [65] # demo_store"]
  show ?thesis
    using t same ms src nsrc r1 st by auto
qed



subsection \<open>The MFS root\<close>

lemma is_marked_iff:
  "is_marked env m c
     \<longleftrightarrow> (\<exists>b. multibase_encode_base32 env (multihash c) = Inr b \<and> Set_has m b)"
  by (cases "multibase_encode_base32 env (multihash c)") (simp_all add: is_marked_def)

lemma yield_refs_normal_end:
  "yield_refs mk rs e = (cs, None) \<Longrightarrow> e = None \<and> map (\<lambda>r. mk (Str r)) rs = map Inr cs"
proof (induction rs arbitrary: cs)
  case Nil
  then show ?case by simp
next
  case (Cons r rs)
  then obtain c cs' where c: "mk (Str r) = Inr c" and rest: "yield_refs mk rs e = (cs', None)"
    and cs: "cs = c # cs'"
    by (auto split: sum.splits prod.splits)
  show ?case using Cons.IH[OF rest] c cs by simp
qed

lemma mfsSource_not_found:
  "root_get env (MFS_ROOT_KEY env) = Inl er \<Longrightarrow> code er = Some ERR_NOT_FOUND
     \<Longrightarrow> mfsSource env = ([], None)"
  by (simp add: mfsSource_def)

lemma mfsSource_lookup_error:
  "root_get env (MFS_ROOT_KEY env) = Inl er \<Longrightarrow> code er \<noteq> Some ERR_NOT_FOUND
     \<Longrightarrow> mfsSource env = ([], Some er)"
  by (simp add: mfsSource_def)

lemma mfsSource_root:
  assumes "root_get env (MFS_ROOT_KEY env) = Inr mh" and "snd (mfsSource env) = None"
  shows "\<exists>rootCid cs. new_CID env (Buf mh) = Inr rootCid
           \<and> fst (mfsSource env) = rootCid # cs
           \<and> map (\<lambda>r. new_CID env (Str r)) (fst (refs env rootCid)) = map Inr cs"
proof -
  obtain rootCid where root: "new_CID env (Buf mh) = Inr rootCid"
    using assms by (cases "new_CID env (Buf mh)") (simp_all add: mfsSource_def)
  obtain rs e where refs: "refs env rootCid = (rs, e)"
    by (cases "refs env rootCid")
  obtain cs e' where yr: "yield_refs (new_CID env) rs e = (cs, e')"
    by (cases "yield_refs (new_CID env) rs e")
  have src: "mfsSource env = (rootCid # cs, e')"
    using assms(1) root refs yr by (simp add: mfsSource_def)
  then have "e' = None" using assms(2) by simp
  then have "map (\<lambda>r. new_CID env (Str r)) rs = map Inr cs"
    using yield_refs_normal_end[of "new_CID env" rs e cs] yr by simp
  then show ?thesis using root src refs by simp
qed

text \<open>
  Claim C5. When \<^verbatim>\<open>repo.root.get(MFS_ROOT_KEY)\<close> fails with the code
  \<^verbatim>\<open>ERR_NOT_FOUND\<close>, the MFS source yields nothing and ends normally, and the set is built
  from the two other sources. When it fails with another error, the MFS source throws
  that error: building the set fails and the run throws without a delete call; the
  error thrown is that of the lookup when the lock is acquired and nothing else fails.
  When the lookup succeeds and the set is built, the set holds the encoding of the root
  identifier and of every identifier the recursive \<^verbatim>\<open>refs\<close> walk from the root yields.
\<close>

theorem mfs_root_handling:
  "(\<forall>er. root_get env (MFS_ROOT_KEY env) = Inl er \<and> code er = Some ERR_NOT_FOUND
      \<longrightarrow> mfsSource env = ([], None)
        \<and> source_cids env = set (fst (pinsSource env)) \<union> set (fst (pinInternalsSource env))
        \<and> (snd (pinsSource env) = None \<and> snd (pinInternalsSource env) = None
             \<and> (\<forall>c \<in> set (fst (pinsSource env)) \<union> set (fst (pinInternalsSource env)).
                   \<exists>b. multibase_encode_base32 env (multihash c) = Inr b)
           \<longrightarrow> (\<exists>output. createMarkedSet env sched = Inr output
                 \<and> set output = {b. \<exists>c \<in> set (fst (pinsSource env))
                                         \<union> set (fst (pinInternalsSource env)).
                                       multibase_encode_base32 env (multihash c) = Inr b})))
   \<and> (\<forall>er. root_get env (MFS_ROOT_KEY env) = Inl er \<and> code er \<noteq> Some ERR_NOT_FOUND
      \<longrightarrow> mfsSource env = ([], Some er)
        \<and> (\<exists>er'. createMarkedSet env sched = Inl er')
        \<and> (\<exists>er'. fst (gc env sched k s) = Thrown er')
        \<and> fst (snd (gc env sched k s)) = []
        \<and> delete_calls (snd (snd (gc env sched k s))) = []
        \<and> store (snd (snd (gc env sched k s))) = s
        \<and> (writeLock env = None
             \<and> snd (pinsSource env) = None \<and> snd (pinInternalsSource env) = None
             \<and> (\<forall>c \<in> set (fst (pinsSource env)) \<union> set (fst (pinInternalsSource env)).
                   \<exists>b. multibase_encode_base32 env (multihash c) = Inr b)
           \<longrightarrow> createMarkedSet env sched = Inl er \<and> fst (gc env sched k s) = Thrown er))
   \<and> (\<forall>mh output. root_get env (MFS_ROOT_KEY env) = Inr mh
                    \<and> createMarkedSet env sched = Inr output
      \<longrightarrow> (\<exists>rootCid. new_CID env (Buf mh) = Inr rootCid
             \<and> (\<exists>b. multibase_encode_base32 env (multihash rootCid) = Inr b \<and> Set_has output b)
             \<and> (\<forall>r \<in> set (fst (refs env rootCid)).
                   \<exists>c b. new_CID env (Str r) = Inr c
                     \<and> multibase_encode_base32 env (multihash c) = Inr b \<and> Set_has output b)))"
proof (intro conjI allI impI)
  fix er
  assume "root_get env (MFS_ROOT_KEY env) = Inl er \<and> code er = Some ERR_NOT_FOUND"
  then show "mfsSource env = ([], None)"
    using mfsSource_not_found by blast
  then show "source_cids env = set (fst (pinsSource env)) \<union> set (fst (pinInternalsSource env))"
    by (simp add: source_cids_def)
next
  fix er
  assume nf: "root_get env (MFS_ROOT_KEY env) = Inl er \<and> code er = Some ERR_NOT_FOUND"
    and ok: "snd (pinsSource env) = None \<and> snd (pinInternalsSource env) = None
             \<and> (\<forall>c \<in> set (fst (pinsSource env)) \<union> set (fst (pinInternalsSource env)).
                   \<exists>b. multibase_encode_base32 env (multihash c) = Inr b)"
  have mfs: "mfsSource env = ([], None)"
    using nf mfsSource_not_found by blast
  then have sc: "source_cids env = set (fst (pinsSource env)) \<union> set (fst (pinInternalsSource env))"
    by (simp add: source_cids_def)
  have "\<exists>output. createMarkedSet env sched = Inr output"
    by (rule createMarkedSet_total) (use ok mfs sc in simp_all)
  then obtain ms where out: "createMarkedSet env sched = Inr ms"
    by blast
  have "set ms = {b. \<exists>c \<in> set (fst (pinsSource env)) \<union> set (fst (pinInternalsSource env)).
                       multibase_encode_base32 env (multihash c) = Inr b}"
    using createMarkedSet_Inr[OF out] sc by simp
  then show "\<exists>output. createMarkedSet env sched = Inr output
                 \<and> set output = {b. \<exists>c \<in> set (fst (pinsSource env))
                                         \<union> set (fst (pinInternalsSource env)).
                                       multibase_encode_base32 env (multihash c) = Inr b}"
    using out by blast
next
  fix er
  assume lk: "root_get env (MFS_ROOT_KEY env) = Inl er \<and> code er \<noteq> Some ERR_NOT_FOUND"
  show mfs: "mfsSource env = ([], Some er)"
    using lk mfsSource_lookup_error by blast
  show fails: "\<exists>er'. createMarkedSet env sched = Inl er'"
  proof (cases "createMarkedSet env sched")
    case (Inl er')
    then show ?thesis by blast
  next
    case (Inr ms)
    then show ?thesis using createMarkedSet_Inr[OF Inr] mfs by simp
  qed
  obtain out rs st where run: "gc env sched k s = (out, rs, st)"
    by (cases "gc env sched k s")
  have "(\<exists>er'. out = Thrown er') \<and> rs = [] \<and> delete_calls st = [] \<and> store st = s"
    using run
  proof (cases rule: gc_cases)
    case (lock er')
    then show ?thesis by (simp add: init_state_def)
  next
    case (mark er')
    then show ?thesis by (simp add: init_state_def release_def)
  next
    case (query m er')
    then show ?thesis using fails by simp
  next
    case (sweep m ks e st')
    then show ?thesis using fails by simp
  qed
  then show "\<exists>er'. fst (gc env sched k s) = Thrown er'"
    and "fst (snd (gc env sched k s)) = []"
    and "delete_calls (snd (snd (gc env sched k s))) = []"
    and "store (snd (snd (gc env sched k s))) = s"
    using run by simp_all
next
  fix er
  assume lk: "root_get env (MFS_ROOT_KEY env) = Inl er \<and> code er \<noteq> Some ERR_NOT_FOUND"
    and ok: "writeLock env = None
             \<and> snd (pinsSource env) = None \<and> snd (pinInternalsSource env) = None
             \<and> (\<forall>c \<in> set (fst (pinsSource env)) \<union> set (fst (pinInternalsSource env)).
                   \<exists>b. multibase_encode_base32 env (multihash c) = Inr b)"
  have mfs: "mfsSource env = ([], Some er)"
    using lk mfsSource_lookup_error by blast
  then have sc: "source_cids env = set (fst (pinsSource env)) \<union> set (fst (pinInternalsSource env))"
    by (simp add: source_cids_def)
  obtain er' where fails: "createMarkedSet env sched = Inl er'"
    using createMarkedSet_Inr[of env sched] mfs
    by (cases "createMarkedSet env sched") auto
  have "\<not> (\<exists>c \<in> source_cids env. multibase_encode_base32 env (multihash c) = Inl er')"
  proof
    assume "\<exists>c \<in> source_cids env. multibase_encode_base32 env (multihash c) = Inl er'"
    then obtain c where c: "c \<in> set (fst (pinsSource env)) \<union> set (fst (pinInternalsSource env))"
      and l: "multibase_encode_base32 env (multihash c) = Inl er'"
      unfolding sc by blast
    have "\<forall>c \<in> set (fst (pinsSource env)) \<union> set (fst (pinInternalsSource env)).
                   \<exists>b. multibase_encode_base32 env (multihash c) = Inr b"
      using ok by simp
    then obtain b where "multibase_encode_base32 env (multihash c) = Inr b"
      using c by blast
    then show False using l by simp
  qed
  then have "er' = er"
    using createMarkedSet_Inl[OF fails] ok mfs by auto
  then show "createMarkedSet env sched = Inl er"
    using fails by simp
  then show "fst (gc env sched k s) = Thrown er"
    using ok by (simp add: gc_def try_finally_def gc_body_def)
next
  fix mh and ms :: "string list"
  assume a: "root_get env (MFS_ROOT_KEY env) = Inr mh \<and> createMarkedSet env sched = Inr ms"
  note ms = createMarkedSet_Inr[OF a[THEN conjunct2]]
  have e: "snd (mfsSource env) = None"
    using ms by simp
  obtain rootCid cs where root: "new_CID env (Buf mh) = Inr rootCid"
    and items: "fst (mfsSource env) = rootCid # cs"
    and rs: "map (\<lambda>r. new_CID env (Str r)) (fst (refs env rootCid)) = map Inr cs"
    using mfsSource_root[OF a[THEN conjunct1] e] by blast
  have marked: "\<exists>b. multibase_encode_base32 env (multihash c) = Inr b \<and> Set_has ms b"
    if "c \<in> set (rootCid # cs)" for c
  proof -
    have "c \<in> source_cids env" using that items by (auto simp add: source_cids_def)
    then have "is_marked env ms c"
      by (rule createMarkedSet_marks[OF a[THEN conjunct2]])
    then show ?thesis
      by (simp add: is_marked_iff)
  qed
  have "\<exists>c b. new_CID env (Str r) = Inr c
           \<and> multibase_encode_base32 env (multihash c) = Inr b \<and> Set_has ms b"
    if r: "r \<in> set (fst (refs env rootCid))" for r
  proof -
    have "new_CID env (Str r) \<in> set (map Inr cs)"
      using r rs by (metis (no_types, lifting) image_eqI list.set_map)
    then obtain c where "c \<in> set cs" "new_CID env (Str r) = Inr c"
      by auto
    then show ?thesis using marked[of c] by auto
  qed
  then show "\<exists>rootCid. new_CID env (Buf mh) = Inr rootCid
             \<and> (\<exists>b. multibase_encode_base32 env (multihash rootCid) = Inr b \<and> Set_has ms b)
             \<and> (\<forall>r \<in> set (fst (refs env rootCid)).
                   \<exists>c b. new_CID env (Str r) = Inr c
                     \<and> multibase_encode_base32 env (multihash c) = Inr b \<and> Set_has ms b)"
    using root marked[of rootCid] by auto
qed



theorem mfs_root_handling_witness:
  "mfsSource demo_env_no_root = ([], None)
   \<and> createMarkedSet demo_env_no_root [1, 0] = Inr [''bB'', ''bA'']
   \<and> set [''bB'', ''bA'']
       = {b. \<exists>c \<in> set (fst (pinsSource demo_env_no_root))
                    \<union> set (fst (pinInternalsSource demo_env_no_root)).
               multibase_encode_base32 demo_env_no_root (multihash c) = Inr b}
   \<and> mfsSource demo_env_root_error = ([], Some (Error (Some ''ERR_IO'') ''read failed''))
   \<and> fst (gc demo_env_root_error [1, 0] None demo_store)
       = Thrown (Error (Some ''ERR_IO'') ''read failed'')
   \<and> fst (snd (gc demo_env_root_error [1, 0] None demo_store)) = []
   \<and> delete_calls (snd (snd (gc demo_env_root_error [1, 0] None demo_store))) = []
   \<and> store (snd (snd (gc demo_env_root_error [1, 0] None demo_store))) = demo_store
   \<and> createMarkedSet demo_env [1, 0] = Inr [''bB'', ''bA'', ''bC'', ''bD'']
   \<and> new_CID demo_env (Buf [67]) = Inr (mk_cid 0 [67])
   \<and> fst (refs demo_env (mk_cid 0 [67])) = [''D'']
   \<and> new_CID demo_env (Str ''D'') = Inr (mk_cid 1 [68])
   \<and> Set_has [''bB'', ''bA'', ''bC'', ''bD''] ''bC''
   \<and> Set_has [''bB'', ''bA'', ''bC'', ''bD''] ''bD''"
proof -
  have a1: "root_get demo_env_no_root (MFS_ROOT_KEY demo_env_no_root)
              = Inl (Error (Some ERR_NOT_FOUND) ''Not Found'')
            \<and> code (Error (Some ERR_NOT_FOUND) ''Not Found'') = Some ERR_NOT_FOUND"
    by (simp add: demo_env_no_root_def)
  have a2: "snd (pinsSource demo_env_no_root) = None
            \<and> snd (pinInternalsSource demo_env_no_root) = None
            \<and> (\<forall>c \<in> set (fst (pinsSource demo_env_no_root))
                      \<union> set (fst (pinInternalsSource demo_env_no_root)).
                  \<exists>b. multibase_encode_base32 demo_env_no_root (multihash c) = Inr b)"
    by (simp add: demo_env_no_root_def demo_env_def pinsSource_def pinInternalsSource_def
          demo_encode_def mk_cid_def)
  have a3: "createMarkedSet demo_env_no_root [1, 0] = Inr [''bB'', ''bA'']"
    by code_simp
  note a = mfs_root_handling[of demo_env_no_root "[1, 0]" None demo_store,
             THEN conjunct1, rule_format, OF a1]
  have a4: "mfsSource demo_env_no_root = ([], None)"
    using a by (rule conjunct1)
  have "\<exists>output. createMarkedSet demo_env_no_root [1, 0] = Inr output
          \<and> set output
              = {b. \<exists>c \<in> set (fst (pinsSource demo_env_no_root))
                           \<union> set (fst (pinInternalsSource demo_env_no_root)).
                      multibase_encode_base32 demo_env_no_root (multihash c) = Inr b}"
    using a[THEN conjunct2, THEN conjunct2, rule_format, OF a2] .
  then have a5: "set [''bB'', ''bA'']
       = {b. \<exists>c \<in> set (fst (pinsSource demo_env_no_root))
                    \<union> set (fst (pinInternalsSource demo_env_no_root)).
               multibase_encode_base32 demo_env_no_root (multihash c) = Inr b}"
    using a3 by auto
  have b1: "root_get demo_env_root_error (MFS_ROOT_KEY demo_env_root_error)
              = Inl (Error (Some ''ERR_IO'') ''read failed'')
            \<and> code (Error (Some ''ERR_IO'') ''read failed'') \<noteq> Some ERR_NOT_FOUND"
    by (simp add: demo_env_root_error_def ERR_NOT_FOUND_def)
  have b2: "writeLock demo_env_root_error = None
            \<and> snd (pinsSource demo_env_root_error) = None
            \<and> snd (pinInternalsSource demo_env_root_error) = None
            \<and> (\<forall>c \<in> set (fst (pinsSource demo_env_root_error))
                      \<union> set (fst (pinInternalsSource demo_env_root_error)).
                  \<exists>b. multibase_encode_base32 demo_env_root_error (multihash c) = Inr b)"
    by (simp add: demo_env_root_error_def demo_env_def pinsSource_def pinInternalsSource_def
          demo_encode_def mk_cid_def)
  note b = mfs_root_handling[of demo_env_root_error "[1, 0]" None demo_store,
             THEN conjunct2, THEN conjunct1, rule_format, OF b1]
  have b3: "mfsSource demo_env_root_error = ([], Some (Error (Some ''ERR_IO'') ''read failed''))"
    and b4: "fst (snd (gc demo_env_root_error [1, 0] None demo_store)) = []"
    and b5: "delete_calls (snd (snd (gc demo_env_root_error [1, 0] None demo_store))) = []"
    and b6: "store (snd (snd (gc demo_env_root_error [1, 0] None demo_store))) = demo_store"
    and b7: "fst (gc demo_env_root_error [1, 0] None demo_store)
               = Thrown (Error (Some ''ERR_IO'') ''read failed'')"
    using b b2 by blast+
  have c1: "root_get demo_env (MFS_ROOT_KEY demo_env) = Inr [67]
            \<and> createMarkedSet demo_env [1, 0] = Inr [''bB'', ''bA'', ''bC'', ''bD'']"
    by code_simp
  have c2: "new_CID demo_env (Buf [67]) = Inr (mk_cid 0 [67])
            \<and> fst (refs demo_env (mk_cid 0 [67])) = [''D'']
            \<and> new_CID demo_env (Str ''D'') = Inr (mk_cid 1 [68])
            \<and> multibase_encode_base32 demo_env (multihash (mk_cid 0 [67])) = Inr ''bC''
            \<and> multibase_encode_base32 demo_env (multihash (mk_cid 1 [68])) = Inr ''bD''"
    by code_simp
  note c = mfs_root_handling[of demo_env "[1, 0]" None demo_store,
             THEN conjunct2, THEN conjunct2, rule_format, OF c1]
  have c3: "Set_has [''bB'', ''bA'', ''bC'', ''bD''] ''bC''
            \<and> Set_has [''bB'', ''bA'', ''bC'', ''bD''] ''bD''"
    using c c2 by auto
  show ?thesis
    using a3 a4 a5 b3 b4 b5 b6 b7 c1 c2 c3 by blast
qed



subsection \<open>A second run\<close>

lemma is_unmarked_set:
  "set m = set m' \<Longrightarrow> is_unmarked env m c = is_unmarked env m' c"
  by (cases "multibase_encode_base32 env (multihash c)")
     (simp_all add: is_unmarked_def Set_has_def)

lemma removeBlock_delete_calls_unmarked:
  "delete_calls (snd (removeBlock env m c st)) =
     delete_calls st @ (if is_unmarked env m c then [c] else [])"
  using removeBlock_delete_calls[of env m c st] by (auto simp add: is_unmarked_iff)

lemma removeBlock_quiet:
  "\<not> is_unmarked env m c \<Longrightarrow>
     store (snd (removeBlock env m c st)) = store st
     \<and> delete_calls (snd (removeBlock env m c st)) = delete_calls st
     \<and> removedBlocksCount (snd (removeBlock env m c st)) = removedBlocksCount st
     \<and> (\<forall>r. fst (removeBlock env m c st) = Some r \<longrightarrow> cid r = None)"
  by (auto simp add: removeBlock_def is_unmarked_def Let_def split: sum.splits)

lemma sweep_quiet:
  assumes "\<forall>c \<in> set ks. \<not> is_unmarked env m c"
  shows "store (snd (snd (sweep env m ks e k st))) = store st
       \<and> delete_calls (snd (snd (sweep env m ks e k st))) = delete_calls st
       \<and> removedBlocksCount (snd (snd (sweep env m ks e k st))) = removedBlocksCount st"
proof (rule sweep_invariant[where I = "\<lambda>x. store x = store st
         \<and> delete_calls x = delete_calls st \<and> removedBlocksCount x = removedBlocksCount st"])
  fix c and st0 :: "'a run_state"
  assume "c \<in> set ks"
    and "store st0 = store st \<and> delete_calls st0 = delete_calls st
         \<and> removedBlocksCount st0 = removedBlocksCount st"
  then show "store (snd (removeBlock env m c st0)) = store st
         \<and> delete_calls (snd (removeBlock env m c st0)) = delete_calls st
         \<and> removedBlocksCount (snd (removeBlock env m c st0)) = removedBlocksCount st"
    using removeBlock_quiet[of env m c st0] assms by simp
next
  show "store st = store st \<and> delete_calls st = delete_calls st
         \<and> removedBlocksCount st = removedBlocksCount st"
    by simp
qed

lemma sweep_quiet_entries:
  assumes "\<forall>c \<in> set ks. \<not> is_unmarked env m c"
    and "r \<in> set (fst (snd (sweep env m ks e k st)))"
  shows "cid r = None"
proof -
  obtain c st0 where "c \<in> set ks" "fst (removeBlock env m c st0) = Some r"
    using sweep_entries[OF assms(2)] by blast
  then show ?thesis
    using removeBlock_quiet[of env m c st0] assms(1) by blast
qed

text \<open>
  Claim C8. A second run after a drained first run deletes nothing. The sources are
  those of the first run (the same \<open>env\<close>), every delete call of the first run
  succeeded, and the store answers the second enumeration with keys that the first run
  enumerated and did not delete. Then every key of the second enumeration that encodes is
  in the marked set of the second run, so the second run makes no delete call, counts no
  removed block, emits no entry with a cid and leaves the store as it is, under any
  schedule of the merge and for any consumer.
\<close>

theorem gc_is_idempotent:
  assumes first: "gc env sched None s = (out1, rs1, st1)"
    and query1: "blocks_query env s = Inr (ks, e)"
    and query2: "blocks_query env (store st1) = Inr (ks', e')"
    and surviving: "set ks' \<subseteq> set ks - set (delete_calls st1)"
    and second: "gc env sched' k' (store st1) = (out2, rs2, st2)"
  shows "delete_calls st2 = [] \<and> removedBlocksCount st2 = 0 \<and> store st2 = store st1
       \<and> (\<forall>r \<in> set rs2. cid r = None)
       \<and> (\<forall>m2. writeLock env = None \<and> createMarkedSet env sched' = Inr m2
             \<longrightarrow> (\<forall>c \<in> set ks'. \<not> isl (multibase_encode_base32 env (multihash c))
                     \<longrightarrow> is_marked env m2 c))"
proof -
  have key: "\<forall>c \<in> set ks'. \<not> is_unmarked env m2 c"
    if lock: "writeLock env = None" and m2: "createMarkedSet env sched' = Inr m2" for m2
  proof -
    obtain m1 where m1: "createMarkedSet env sched = Inr m1" and same: "set m1 = set m2"
      using createMarkedSet_schedule[OF m2, of sched] by blast
    have run1: "gc env sched None s =
        (case sweep env m1 ks e None (init_state s) of
           (out, rs, st') \<Rightarrow> (out, rs, release st'))"
      using gc_sweep[OF lock m1 query1] .
    have "st1 = release (snd (snd (sweep env m1 ks e None (init_state s))))"
      using first by (simp add: run1 split_beta)
    then have "delete_calls st1 = filter (is_unmarked env m1) ks"
      using sweep_drain_delete_calls[of env m1 ks e "init_state s"]
      by (simp add: release_def init_state_def)
    then have "\<forall>c \<in> set ks'. \<not> is_unmarked env m1 c"
      using surviving by auto
    then show ?thesis
      using is_unmarked_set[OF same] by blast
  qed
  have main: "delete_calls st2 = [] \<and> removedBlocksCount st2 = 0 \<and> store st2 = store st1
       \<and> (\<forall>r \<in> set rs2. cid r = None)"
    using second
  proof (cases rule: gc_cases)
    case (lock er)
    then show ?thesis by (simp add: init_state_def)
  next
    case (mark er)
    then show ?thesis by (simp add: init_state_def release_def)
  next
    case (query m er)
    then show ?thesis by (simp add: init_state_def release_def)
  next
    case (sweep m2 ks2 e2 st2')
    have ks2: "ks2 = ks'" using sweep(3) query2 by simp
    have quiet: "\<forall>c \<in> set ks2. \<not> is_unmarked env m2 c"
      using key[OF sweep(1) sweep(2)] ks2 by simp
    have "store st2' = store st1 \<and> delete_calls st2' = [] \<and> removedBlocksCount st2' = 0"
      using sweep_quiet[OF quiet, of e2 k' "init_state (store st1)"] sweep(4)
      by (simp add: init_state_def)
    moreover have "\<forall>r \<in> set rs2. cid r = None"
      using sweep_quiet_entries[OF quiet, of _ e2 k' "init_state (store st1)"] sweep(4)
      by simp
    ultimately show ?thesis
      using sweep(5) by (simp add: release_def)
  qed
  have "is_marked env m2 c"
    if "writeLock env = None \<and> createMarkedSet env sched' = Inr m2" and "c \<in> set ks'"
      and "\<not> isl (multibase_encode_base32 env (multihash c))" for m2 c
    using key[of m2] that by (auto simp add: is_unmarked_iff)
  then show ?thesis
    using main by blast
qed

theorem gc_is_idempotent_witness:
  "store (snd (snd (gc demo_env_ok [] None demo_store)))
     = [mk_cid 1 [65], mk_cid 0 [66], mk_cid 0 [67], mk_cid 1 [68]]
   \<and> delete_calls (snd (snd (gc demo_env_ok [] None demo_store)))
     = [mk_cid 1 [88], mk_cid 1 [89], mk_cid 1 [90]]
   \<and> delete_calls (snd (snd (gc demo_env_ok [2, 1] None
        (store (snd (snd (gc demo_env_ok [] None demo_store))))))) = []
   \<and> removedBlocksCount (snd (snd (gc demo_env_ok [2, 1] None
        (store (snd (snd (gc demo_env_ok [] None demo_store))))))) = 0
   \<and> store (snd (snd (gc demo_env_ok [2, 1] None
        (store (snd (snd (gc demo_env_ok [] None demo_store)))))))
     = store (snd (snd (gc demo_env_ok [] None demo_store)))
   \<and> fst (snd (gc demo_env_ok [2, 1] None
        (store (snd (snd (gc demo_env_ok [] None demo_store)))))) = []"
proof -
  let ?r1 = "gc demo_env_ok [] None demo_store"
  let ?r2 = "gc demo_env_ok [2, 1] None (store (snd (snd ?r1)))"
  have st1: "store (snd (snd ?r1)) = [mk_cid 1 [65], mk_cid 0 [66], mk_cid 0 [67], mk_cid 1 [68]]"
    and dc1: "delete_calls (snd (snd ?r1)) = [mk_cid 1 [88], mk_cid 1 [89], mk_cid 1 [90]]"
    by code_simp+
  have first: "?r1 = (fst ?r1, fst (snd ?r1), snd (snd ?r1))"
    by simp
  have second: "?r2 = (fst ?r2, fst (snd ?r2), snd (snd ?r2))"
    by simp
  have query1: "blocks_query demo_env_ok demo_store = Inr (demo_store, None)"
    by (simp add: demo_env_ok_def demo_env_def)
  have query2: "blocks_query demo_env_ok (store (snd (snd ?r1))) = Inr (store (snd (snd ?r1)), None)"
    by (simp add: demo_env_ok_def demo_env_def)
  have surviving: "set (store (snd (snd ?r1))) \<subseteq> set demo_store - set (delete_calls (snd (snd ?r1)))"
    unfolding st1 dc1 by code_simp
  have entries: "fst (snd ?r2) = []"
    unfolding st1 by code_simp
  note t = gc_is_idempotent[OF first query1 query2 surviving second]
  show ?thesis
    using t st1 dc1 entries by simp
qed


end
